theory Spec2Isabelle
  imports Main "HOL-Library.AList"
begin

section \<open>Values exchanged between the FHIRPath engine and the intercepted functions\<close>

text \<open>
  The intercepted functions receive \<^verbatim>\<open>string | Coding | CodeableConcept | Reference\<close>
  elements and hand back booleans, numbers and fetched JSON documents. An optional
  field of a JavaScript object is an \<open>option\<close>: \<open>None\<close> is \<^verbatim>\<open>undefined\<close>.
\<close>

record Coding =
  system :: "string option"
  code :: "string option"

record Parameter =
  name :: string
  valueBoolean :: "bool option"

text \<open>
  A decoded JSON response body. Only the two fields the adapters look at are kept
  apart (\<^verbatim>\<open>parameter\<close> of a Parameters resource, \<^verbatim>\<open>issue\<close> of an
  OperationOutcome); the rest of the document is the opaque \<open>content\<close>.
\<close>

record ResponseJson =
  parameter :: "Parameter list option"
  issue :: "string list option"
  content :: string

datatype fhir_value =
    VString string
  | VBool bool
  | VNumber int
  | VCoding Coding
  | VCodeableConcept "Coding list option"
  | VReference "string option"
  | VResource ResponseJson

text \<open>JavaScript string conversion and truthiness of an optional string.\<close>

definition js_string :: "string option \<Rightarrow> string" where
  "js_string v = (case v of None \<Rightarrow> ''undefined'' | Some s \<Rightarrow> s)"

definition truthy :: "string option \<Rightarrow> bool" where
  "truthy v = (case v of None \<Rightarrow> False | Some s \<Rightarrow> s \<noteq> [])"

fun join :: "string \<Rightarrow> string list \<Rightarrow> string" where
  "join sep [] = []"
| "join sep [x] = x"
| "join sep (x # y # ys) = x @ sep @ join sep (y # ys)"

section \<open>Fingerprints (index keys)\<close>

text \<open>
  \<^verbatim>\<open>createIndexKeyResolve\<close>: a string is its own key, an object gives its
  \<^verbatim>\<open>reference\<close> field (absent on every object but a Reference).
\<close>

fun createIndexKeyResolve :: "fhir_value \<Rightarrow> string option" where
  "createIndexKeyResolve (VString s) = Some s"
| "createIndexKeyResolve (VReference r) = r"
| "createIndexKeyResolve _ = None"

text \<open>
  \<^verbatim>\<open>createIndexKeyMemberOf\<close>: the three accepted shapes in the order the source
  tests them (string, then a truthy \<^verbatim>\<open>code\<close>, then a present \<^verbatim>\<open>coding\<close> array),
  \<^verbatim>\<open>undefined\<close> otherwise. An absent \<^verbatim>\<open>system\<close> concatenates as the text
  \<^verbatim>\<open>undefined\<close>. Values are typed as the source types them: a boolean, a number, a
  Reference and a fetched document have neither a \<^verbatim>\<open>code\<close> nor a \<^verbatim>\<open>coding\<close>.
\<close>

definition coding_key :: "Coding \<Rightarrow> string" where
  "coding_key c = js_string (system c) @ ''|'' @ js_string (code c)"

fun createIndexKeyMemberOf :: "fhir_value \<Rightarrow> string \<Rightarrow> string option" where
  "createIndexKeyMemberOf (VString s) valueset = Some (s @ '' - '' @ valueset)"
| "createIndexKeyMemberOf (VCoding c) valueset =
     (if truthy (code c) then Some (coding_key c @ '' - '' @ valueset) else None)"
| "createIndexKeyMemberOf (VCodeableConcept (Some cs)) valueset =
     Some (join '','' (map coding_key cs) @ '' - '' @ valueset)"
| "createIndexKeyMemberOf _ valueset = None"

section \<open>\<^verbatim>\<open>birthdateToAge\<close>\<close>

text \<open>
  \<^verbatim>\<open>isValidDateString\<close> first tests the regular expression
  \<^verbatim>\<open>/^\d{4}-\d{2}-\d{2}$/\<close>, then builds a \<^verbatim>\<open>Date\<close> and compares the text with the
  date part of \<^verbatim>\<open>toISOString()\<close>.
\<close>

definition is_digit :: "char \<Rightarrow> bool" where
  "is_digit c = (c \<in> set ''0123456789'')"

definition digit_value :: "char \<Rightarrow> nat" where
  "digit_value c = of_char c - 48"

definition digit_char :: "nat \<Rightarrow> char" where
  "digit_char n = ''0123456789'' ! n"

definition number_of :: "string \<Rightarrow> nat" where
  "number_of ds = foldl (\<lambda>n c. 10 * n + digit_value c) 0 ds"

definition dateRegex_test :: "string \<Rightarrow> bool" where
  "dateRegex_test s =
     (length s = 10 \<and> list_all is_digit (take 4 s) \<and> s ! 4 = CHR ''-'' \<and>
      list_all is_digit (take 2 (drop 5 s)) \<and> s ! 7 = CHR ''-'' \<and>
      list_all is_digit (drop 8 s))"

definition leap_year :: "nat \<Rightarrow> bool" where
  "leap_year y = (y mod 4 = 0 \<and> (y mod 100 \<noteq> 0 \<or> y mod 400 = 0))"

definition days_in_month :: "nat \<Rightarrow> nat \<Rightarrow> nat" where
  "days_in_month y m =
     (if m = 2 then (if leap_year y then 29 else 28)
      else if m = 4 \<or> m = 6 \<or> m = 9 \<or> m = 11 then 30 else 31)"

text \<open>
  A \<^verbatim>\<open>Date\<close> built from a text that passed the regular expression: the UTC calendar
  fields (year, month 1..12, day), or the invalid date whose time stamp is NaN. The
  date-only ISO form is refused when the month is not 1..12 or the day not 1..31; a day
  past the end of its month (30 February) is carried into the next month, as V8 does.
  (An engine that refuses such a day instead makes the same tests of
  \<^verbatim>\<open>isValidDateString\<close> fail one line earlier.)
\<close>

datatype js_date = InvalidDate | Date nat nat nat

definition new_Date :: "string \<Rightarrow> js_date" where
  "new_Date s =
     (let y = number_of (take 4 s); m = number_of (take 2 (drop 5 s));
          d = number_of (drop 8 s)
      in if m < 1 \<or> 12 < m \<or> d < 1 \<or> 31 < d then InvalidDate
         else if d \<le> days_in_month y m then Date y m d
         else Date y (m + 1) (d - days_in_month y m))"

definition pad2 :: "nat \<Rightarrow> string" where
  "pad2 n = [digit_char (n div 10 mod 10), digit_char (n mod 10)]"

definition pad4 :: "nat \<Rightarrow> string" where
  "pad4 n = [digit_char (n div 1000 mod 10), digit_char (n div 100 mod 10),
             digit_char (n div 10 mod 10), digit_char (n mod 10)]"

text \<open>\<^verbatim>\<open>date.toISOString().split('T')[0]\<close> of a valid date.\<close>

definition iso_date :: "nat \<Rightarrow> nat \<Rightarrow> nat \<Rightarrow> string" where
  "iso_date y m d = pad4 y @ ''-'' @ pad2 m @ ''-'' @ pad2 d"

definition isValidDateString :: "string \<Rightarrow> bool" where
  "isValidDateString dateString =
     (if \<not> dateRegex_test dateString then False
      else case new_Date dateString of
             InvalidDate \<Rightarrow> False
           | Date y m d \<Rightarrow> dateString = iso_date y m d)"

text \<open>
  The clock and the time zone belong to the host: \<open>today\<close> holds the local
  \<^verbatim>\<open>getFullYear()\<close>, \<^verbatim>\<open>getMonth()\<close>, \<^verbatim>\<open>getDate()\<close> of \<^verbatim>\<open>new Date()\<close>, and
  \<open>local_fields\<close> gives the same three local fields of a date parsed as UTC midnight.
\<close>

record clock =
  today :: "int \<times> int \<times> int"
  local_fields :: "nat \<times> nat \<times> nat \<Rightarrow> int \<times> int \<times> int"

definition age_between :: "int \<times> int \<times> int \<Rightarrow> int \<times> int \<times> int \<Rightarrow> int" where
  "age_between t b =
     (case t of (ty, tm, td) \<Rightarrow> case b of (byr, bm, bd) \<Rightarrow>
        (if tm < bm \<or> (tm = bm \<and> td < bd) then ty - byr - 1 else ty - byr))"

text \<open>
  \<^verbatim>\<open>birthdateToAge\<close> is typed for a string; the interception layer passes it whatever
  element it was given. The text of any other value (\<^verbatim>\<open>true\<close>, a number,
  \<^verbatim>\<open>[object Object]\<close>) never passes the regular expression, so the answer is
  \<^verbatim>\<open>undefined\<close>.
\<close>

fun birthdateToAge :: "clock \<Rightarrow> fhir_value \<Rightarrow> int option" where
  "birthdateToAge clk (VString birthDate) =
     (if \<not> isValidDateString birthDate then None
      else case new_Date birthDate of
             InvalidDate \<Rightarrow> None
           | Date y m d \<Rightarrow> Some (age_between (today clk) (local_fields clk (y, m, d))))"
| "birthdateToAge clk _ = None"

section \<open>The registry of asynchronous calls\<close>

text \<open>
  \<^verbatim>\<open>asyncFunction\<close> is a pointer to one of the two adapters. The field
  \<^verbatim>\<open>value\<close> of the source is \<open>val\<close> here; a record made by \<^verbatim>\<open>resolve\<close>
  has no \<^verbatim>\<open>valueSet\<close>.
\<close>

datatype adapter = ResolveAsync | MemberOfAsync

record AsyncFunctionUserData =
  evaluationCompleted :: bool
  asyncFunction :: adapter
  result :: "fhir_value option"
  val :: fhir_value
  valueSet :: "string option"

datatype log_entry = Note string "string option" | Count string nat

text \<open>
  The variables the closures of \<^verbatim>\<open>evaluateFhirpathAsync\<close> share. The JavaScript
  \<^verbatim>\<open>Map\<close> keeps its keys in insertion order and \<^verbatim>\<open>set\<close> on a present key
  replaces the value in place: an association list under \<open>AList.update\<close>, read
  with \<open>map_of\<close>. \<open>requested\<close> is not a variable of the source: it records, in
  order, the key of every \<^verbatim>\<open>details.asyncFunction(outcome, details)\<close> call the driver
  makes, so that the calls can be counted.
\<close>

record state =
  asyncCallsRequired :: "(string \<times> AsyncFunctionUserData) list"
  requiresAsyncProcessing :: bool
  outcome :: "log_entry list"
  requested :: "string list"

definition initial_state :: state where
  "initial_state =
     \<lparr>asyncCallsRequired = [], requiresAsyncProcessing = False, outcome = [], requested = []\<rparr>"

text \<open>
  Modelled from the spec: \<^verbatim>\<open>logMessage\<close> of \<^verbatim>\<open>utils/outcome-utils\<close> is not among
  the sources. The process-wide toggle controls whether a trace message is added to the
  outcome; it affects no result.
\<close>

definition logMessage :: "bool \<Rightarrow> log_entry \<Rightarrow> state \<Rightarrow> state" where
  "logMessage debug entry st = (if debug then st\<lparr>outcome := outcome st @ [entry]\<rparr> else st)"

text \<open>
  Modelled from the spec: \<^verbatim>\<open>CreateOperationOutcome\<close> of \<^verbatim>\<open>utils/outcome-utils\<close> is not
  among the sources. It builds the structured diagnostic: one issue with severity, code,
  human-readable detail and, when given, the diagnostics text. (The callers pass
  \<^verbatim>\<open>undefined\<close> for the coding, the fourth of its five arguments; it is left out.)
\<close>

record OperationOutcomeIssue =
  severity :: string
  issue_code :: string
  details :: string
  diagnostics :: "string option"

type_synonym OperationOutcome = "OperationOutcomeIssue list"

definition CreateOperationOutcome ::
  "string \<Rightarrow> string \<Rightarrow> string \<Rightarrow> string option \<Rightarrow> OperationOutcome" where
  "CreateOperationOutcome sev c message diag =
     [\<lparr>severity = sev, issue_code = c, details = message, diagnostics = diag\<rparr>]"

text \<open>\<^verbatim>\<open>asyncCallsRequired.get(key)?.evaluationCompleted\<close> and \<^verbatim>\<open>...?.result\<close>.\<close>

definition get_evaluationCompleted :: "state \<Rightarrow> string \<Rightarrow> bool" where
  "get_evaluationCompleted st key =
     (case map_of (asyncCallsRequired st) key of None \<Rightarrow> False | Some d \<Rightarrow> evaluationCompleted d)"

definition get_result :: "state \<Rightarrow> string \<Rightarrow> fhir_value option" where
  "get_result st key =
     (case map_of (asyncCallsRequired st) key of None \<Rightarrow> None | Some d \<Rightarrow> result d)"

section \<open>The interception layer (\<^verbatim>\<open>userInvocationTable\<close>)\<close>

text \<open>
  Each handler is \<^verbatim>\<open>inputs.map(f).filter((v) => v !== undefined)\<close>, where \<open>f\<close>
  reads and writes the shared variables: \<open>map_inputs\<close> threads the state through
  the elements in order.
\<close>

fun map_inputs :: "('a \<Rightarrow> 's \<Rightarrow> 'b \<times> 's) \<Rightarrow> 'a list \<Rightarrow> 's \<Rightarrow> 'b list \<times> 's" where
  "map_inputs f [] st = ([], st)"
| "map_inputs f (x # xs) st =
     (case f x st of (y, st1) \<Rightarrow>
        case map_inputs f xs st1 of (ys, st2) \<Rightarrow> (y # ys, st2))"

definition filter_defined :: "'a option list \<Rightarrow> 'a list" where
  "filter_defined vs = map the (filter (\<lambda>v. v \<noteq> None) vs)"

definition toAge_element :: "bool \<Rightarrow> clock \<Rightarrow> fhir_value \<Rightarrow> state \<Rightarrow> fhir_value option \<times> state" where
  "toAge_element debug clk reference st =
     (let key0 = createIndexKeyResolve reference;
          key = (if truthy key0 then Some (''Resolve:'' @ js_string key0) else key0);
          ageResult = birthdateToAge clk reference
      in (map_option VNumber ageResult, logMessage debug (Note '' performing toAge(): '' key) st))"

definition register_call :: "bool \<Rightarrow> string \<Rightarrow> AsyncFunctionUserData \<Rightarrow> state \<Rightarrow> state" where
  "register_call debug key d st =
     (logMessage debug (Note ''  requires async evaluation for: '' (Some key))
        (st\<lparr>asyncCallsRequired := AList.update key d (asyncCallsRequired st)\<rparr>))
     \<lparr>requiresAsyncProcessing := True\<rparr>"

definition lookup_or_register ::
  "bool \<Rightarrow> string \<Rightarrow> AsyncFunctionUserData \<Rightarrow> state \<Rightarrow> fhir_value option \<times> state" where
  "lookup_or_register debug key d st =
     (if get_evaluationCompleted st key
      then (get_result st key, logMessage debug (Note ''  using cached result for: '' (Some key)) st)
      else (None, register_call debug key d st))"

definition resolve_element :: "bool \<Rightarrow> fhir_value \<Rightarrow> state \<Rightarrow> fhir_value option \<times> state" where
  "resolve_element debug reference st =
     (let key = createIndexKeyResolve reference
      in if truthy key
         then lookup_or_register debug (''Resolve:'' @ js_string key)
                \<lparr>evaluationCompleted = False, asyncFunction = ResolveAsync, result = None,
                 val = reference, valueSet = None\<rparr> st
         else (None, st))"

definition memberOf_element ::
  "bool \<Rightarrow> string \<Rightarrow> fhir_value \<Rightarrow> state \<Rightarrow> fhir_value option \<times> state" where
  "memberOf_element debug vs codeData st =
     (let key = createIndexKeyMemberOf codeData vs
      in if truthy key
         then lookup_or_register debug (''MemberOf:'' @ js_string key)
                \<lparr>evaluationCompleted = False, asyncFunction = MemberOfAsync, result = None,
                 val = codeData, valueSet = Some vs\<rparr> st
         else (None, st))"

datatype invocation = ToAge | Resolve | MemberOf string

fun element_fn ::
  "bool \<Rightarrow> clock \<Rightarrow> invocation \<Rightarrow> fhir_value \<Rightarrow> state \<Rightarrow> fhir_value option \<times> state" where
  "element_fn debug clk ToAge = toAge_element debug clk"
| "element_fn debug clk Resolve = resolve_element debug"
| "element_fn debug clk (MemberOf vs) = memberOf_element debug vs"

definition userInvocationTable ::
  "bool \<Rightarrow> clock \<Rightarrow> invocation \<Rightarrow> fhir_value list \<Rightarrow> state \<Rightarrow> fhir_value list \<times> state" where
  "userInvocationTable debug clk f inputs st =
     (case map_inputs (element_fn debug clk f) inputs st of
        (vs, st1) \<Rightarrow> (filter_defined vs, st1))"

section \<open>One synchronous pass of the FHIRPath engine\<close>

text \<open>
  \<^verbatim>\<open>fhirpath.evaluate\<close> is a library outside the repository. For fixed data,
  expression, context and model, a deterministic synchronous engine is the tree of its
  conversation with the user invocation table: it returns a result list, throws (with
  or without a \<^verbatim>\<open>message\<close>), or invokes a registered function on an input list and
  goes on according to what the function returned.
\<close>

text \<open>
  The tree is the same for every version of the driver in the repository; the versions
  differ in the functions they register (\<open>'f\<close>) and in what those hand back
  (\<open>'r\<close>, a value or possibly \<^verbatim>\<open>undefined\<close>).
\<close>

datatype ('f, 'r) evaluation =
    Return "'r list"
  | Throw "string option"
  | Invoke 'f "fhir_value list" "'r list \<Rightarrow> ('f, 'r) evaluation"

primrec fhirpath_evaluate ::
  "('f \<Rightarrow> fhir_value list \<Rightarrow> 's \<Rightarrow> 'r list \<times> 's) \<Rightarrow> ('f, 'r) evaluation \<Rightarrow> 's \<Rightarrow>
     (string option + 'r list) \<times> 's" where
  "fhirpath_evaluate table (Return vs) = (\<lambda>st. (Inr vs, st))"
| "fhirpath_evaluate table (Throw m) = (\<lambda>st. (Inl m, st))"
| "fhirpath_evaluate table (Invoke f inputs k) =
     (\<lambda>st. case table f inputs st of (out, st1) \<Rightarrow> fhirpath_evaluate table (k out) st1)"

section \<open>The adapters\<close>

text \<open>
  What lies beyond \<^verbatim>\<open>fetch\<close> is the host's: \<open>fetch_json\<close> is
  \<^verbatim>\<open>fetch(URL)\<close> followed by \<^verbatim>\<open>response.json()\<close> for the reference adapter,
  \<open>validate_code\<close> the same for the three request shapes of the terminology
  server. Either step may reject with an \<^verbatim>\<open>Error\<close> (its \<^verbatim>\<open>message\<close> is kept);
  otherwise a JSON object comes back. \<open>latency\<close> orders the arrival of the
  answers of the calls that are in flight together: the turn in which the answer of a
  call arrives (the key of the call is the argument).
\<close>

datatype fetch_result = Rejected string | Responded ResponseJson

datatype request =
    PostCodeableConcept "string option" "Coding list"
  | GetCode "string option" string
  | GetCoding string string string

record host =
  debugAsyncFhirpath :: bool
  host_clock :: clock
  fetch_json :: "string \<Rightarrow> fetch_result"
  validate_code :: "request \<Rightarrow> fetch_result"
  latency :: "string \<Rightarrow> nat"

text \<open>
  \<^verbatim>\<open>resolveAsync\<close>: the mutated record, and the outcome it throws if it throws.
\<close>

definition resolveAsync ::
  "host \<Rightarrow> AsyncFunctionUserData \<Rightarrow> AsyncFunctionUserData \<times> OperationOutcome option" where
  "resolveAsync h d =
     (let URL = createIndexKeyResolve (val d)
      in if truthy URL
         then (case fetch_json h (js_string URL) of
                 Responded resultJson \<Rightarrow>
                   (d\<lparr>result := Some (VResource resultJson), evaluationCompleted := True\<rparr>, None)
               | Rejected message \<Rightarrow>
                   (d\<lparr>result := None, evaluationCompleted := True\<rparr>,
                    Some (CreateOperationOutcome ''error'' ''exception''
                            (''Failed to resolve reference: '' @ js_string URL) (Some message))))
         else (d, None))"

text \<open>
  The request \<^verbatim>\<open>memberOfAsync\<close> sends, in the order the source tests the shapes: a
  present \<^verbatim>\<open>coding\<close> array is posted, a string is queried by code, an object with a
  truthy \<^verbatim>\<open>code\<close> by system and code; anything else sends nothing.
\<close>

definition or_empty :: "string option \<Rightarrow> string" where
  "or_empty v = (case v of None \<Rightarrow> [] | Some s \<Rightarrow> s)"

fun memberOf_request :: "fhir_value \<Rightarrow> string option \<Rightarrow> request option" where
  "memberOf_request (VCodeableConcept (Some cs)) vs = Some (PostCodeableConcept vs cs)"
| "memberOf_request (VString s) vs = Some (GetCode vs s)"
| "memberOf_request (VCoding c) vs =
     (if truthy (code c) then Some (GetCoding (or_empty vs) (or_empty (system c)) (js_string (code c)))
      else None)"
| "memberOf_request _ vs = None"

definition membership_failure :: "AsyncFunctionUserData \<Rightarrow> string option \<Rightarrow> OperationOutcome" where
  "membership_failure d message =
     CreateOperationOutcome ''error'' ''exception''
       (''Failed to check membership: '' @
          js_string (createIndexKeyMemberOf (val d) (js_string (valueSet d))))
       message"

definition memberOfAsync ::
  "host \<Rightarrow> AsyncFunctionUserData \<Rightarrow> AsyncFunctionUserData \<times> OperationOutcome option" where
  "memberOfAsync h d =
     (case memberOf_request (val d) (valueSet d) of
        None \<Rightarrow> (d, None)
      | Some req \<Rightarrow>
          (case validate_code h req of
             Rejected message \<Rightarrow>
               (d\<lparr>evaluationCompleted := True\<rparr>, Some (membership_failure d (Some message)))
           | Responded resultJson \<Rightarrow>
               (let d1 = (case parameter resultJson of
                            None \<Rightarrow> d
                          | Some ps \<Rightarrow>
                              (case find (\<lambda>p. name p = ''result'') ps of
                                 None \<Rightarrow> d
                               | Some param \<Rightarrow>
                                   d\<lparr>evaluationCompleted := True,
                                     result := map_option VBool (valueBoolean param)\<rparr>))
                in case issue resultJson of
                     None \<Rightarrow> (d1, None)
                   | Some _ \<Rightarrow>
                       (d1\<lparr>evaluationCompleted := True\<rparr>, Some (membership_failure d None)))))"

definition run_adapter ::
  "host \<Rightarrow> AsyncFunctionUserData \<Rightarrow> AsyncFunctionUserData \<times> OperationOutcome option" where
  "run_adapter h d =
     (case asyncFunction d of ResolveAsync \<Rightarrow> resolveAsync h d | MemberOfAsync \<Rightarrow> memberOfAsync h d)"

section \<open>The driver \<^verbatim>\<open>evaluateFhirpathAsync\<close>\<close>

text \<open>
  The keys the resolve phase calls an adapter for: the keys of the map, in insertion
  order, whose record is not completed.
\<close>

definition pending_keys :: "state \<Rightarrow> string list" where
  "pending_keys st =
     filter (\<lambda>key. case map_of (asyncCallsRequired st) key of
                      None \<Rightarrow> False
                    | Some d \<Rightarrow> \<not> evaluationCompleted d)
       (map fst (asyncCallsRequired st))"

definition start_call :: "bool \<Rightarrow> state \<Rightarrow> string \<Rightarrow> state" where
  "start_call debug st key =
     (logMessage debug (Note ''  performing async request for: '' (Some key)) st)
       \<lparr>requested := requested st @ [key]\<rparr>"

text \<open>
  \<^verbatim>\<open>await Promise.all(asyncPromises)\<close>: \<open>latency\<close> is the turn of the event loop
  in which the answer of a call arrives; the calls of one turn continue in the order in
  which they were made, and each one mutates its own record. The first call that
  throws rejects the awaited promise. The driver, which has no handler around the
  \<^verbatim>\<open>await\<close>, is resumed with that outcome only after the continuations that were
  queued in the same turn have run: the other calls of that turn have written their
  records by then, and what the answers of later turns would have written is never
  seen. The state at that moment is kept beside the outcome. Should several calls of
  one turn throw, the outcome kept is that of the first of them in the order of the
  calls.
\<close>

definition write_record :: "host \<Rightarrow> state \<Rightarrow> string \<Rightarrow> state" where
  "write_record h st key =
     (case map_of (asyncCallsRequired st) key of
        None \<Rightarrow> st
      | Some d \<Rightarrow>
          st\<lparr>asyncCallsRequired := AList.update key (fst (run_adapter h d)) (asyncCallsRequired st)\<rparr>)"

fun settle :: "host \<Rightarrow> string list \<Rightarrow> state \<Rightarrow> (OperationOutcome \<times> state) + state" where
  "settle h [] st = Inr st"
| "settle h (key # keys) st =
     (case map_of (asyncCallsRequired st) key of
        None \<Rightarrow> settle h keys st
      | Some d \<Rightarrow>
          (case run_adapter h d of
             (d1, None) \<Rightarrow>
               settle h keys (st\<lparr>asyncCallsRequired := AList.update key d1 (asyncCallsRequired st)\<rparr>)
           | (d1, Some err) \<Rightarrow>
               Inl (err,
                    foldl (write_record h)
                      (st\<lparr>asyncCallsRequired := AList.update key d1 (asyncCallsRequired st)\<rparr>)
                      (takeWhile (\<lambda>k. latency h k = latency h key) keys))))"

definition resolve_phase :: "host \<Rightarrow> state \<Rightarrow> (OperationOutcome \<times> state) + state" where
  "resolve_phase h st =
     (if asyncCallsRequired st = [] then Inr st
      else let keys = pending_keys st;
               st1 = foldl (start_call (debugAsyncFhirpath h)) st keys
           in case settle h (sort_key (latency h) keys) st1 of
                Inl failure \<Rightarrow> Inl failure
              | Inr st2 \<Rightarrow> Inr (st2\<lparr>requiresAsyncProcessing := False\<rparr>))"

text \<open>
  The body of the \<^verbatim>\<open>do ... while\<close> loop after \<^verbatim>\<open>iterations++\<close>: the resolve
  phase, then one pass of the engine. An error of the engine that carries a message
  becomes a fatal outcome; one without a message is swallowed and \<^verbatim>\<open>results\<close> keeps
  its old value.
\<close>

definition do_body ::
  "host \<Rightarrow> (invocation, fhir_value) evaluation \<Rightarrow> nat \<Rightarrow> fhir_value list \<Rightarrow> state \<Rightarrow>
     (OperationOutcome \<times> state) + (fhir_value list \<times> state)" where
  "do_body h e iterations results st =
     (case resolve_phase h st of
        Inl failure \<Rightarrow> Inl failure
      | Inr st1 \<Rightarrow>
          (case fhirpath_evaluate (userInvocationTable (debugAsyncFhirpath h) (host_clock h)) e
                  (logMessage (debugAsyncFhirpath h) (Count ''performing iteration: '' iterations) st1) of
             (Inr vs, st2) \<Rightarrow> Inr (vs, st2)
           | (Inl message, st2) \<Rightarrow>
               if truthy message
               then Inl (CreateOperationOutcome ''fatal'' ''exception'' (js_string message) None, st2)
               else Inr (results, st2)))"

record 'r finished =
  results :: "'r list"
  iterations :: nat
  final :: state

function loop ::
  "host \<Rightarrow> (invocation, fhir_value) evaluation \<Rightarrow> nat \<Rightarrow> fhir_value list \<Rightarrow> state \<Rightarrow>
     (OperationOutcome \<times> state) + fhir_value finished" where
  "loop h e its res st =
     (case do_body h e (Suc its) res st of
        Inl failure \<Rightarrow> Inl failure
      | Inr (res1, st1) \<Rightarrow>
          if requiresAsyncProcessing st1 \<and> Suc its < 10
          then loop h e (Suc its) res1 st1
          else Inr \<lparr>results = res1, iterations = Suc its, final = st1\<rparr>)"
  by pat_completeness auto
termination
  by (relation "measure (\<lambda>(h, e, its, res, st). 10 - its)") auto

declare loop.simps [simp del]

definition run :: "host \<Rightarrow> (invocation, fhir_value) evaluation \<Rightarrow> (OperationOutcome \<times> state) + fhir_value finished" where
  "run h e =
     (case loop h e 0 [] initial_state of
        Inl failure \<Rightarrow> Inl failure
      | Inr fin \<Rightarrow>
          Inr (if 1 < iterations fin
               then fin\<lparr>final := logMessage (debugAsyncFhirpath h)
                                    (Count ''total iterations'' (iterations fin)) (final fin)\<rparr>
               else fin))"

text \<open>
  What the caller of \<^verbatim>\<open>evaluateFhirpathAsync\<close> gets: the promise is rejected with an
  outcome or fulfilled with \<^verbatim>\<open>results\<close>, and with nothing else.
\<close>

definition evaluateFhirpathAsync :: "host \<Rightarrow> (invocation, fhir_value) evaluation \<Rightarrow> OperationOutcome + fhir_value list" where
  "evaluateFhirpathAsync h e =
     (case run h e of Inl (failure, st) \<Rightarrow> Inl failure | Inr fin \<Rightarrow> Inr (results fin))"

section \<open>The earlier driver with stub adapters\<close>

text \<open>
  A second version of the driver in the repository registers \<^verbatim>\<open>resolve\<close> and
  \<^verbatim>\<open>memberOf\<close> with the same element functions, but hands their answers to the
  engine unfiltered (an \<^verbatim>\<open>undefined\<close> stays in the list), awaits the adapters one
  after the other, and its adapters are stubs that never fail: the reference adapter
  knows one URL, the membership adapter one value set.
\<close>

datatype invocation_0 = Resolve_0 | MemberOf_0 string

fun element_fn_0 :: "bool \<Rightarrow> invocation_0 \<Rightarrow> fhir_value \<Rightarrow> state \<Rightarrow> fhir_value option \<times> state" where
  "element_fn_0 debug Resolve_0 = resolve_element debug"
| "element_fn_0 debug (MemberOf_0 vs) = memberOf_element debug vs"

definition userInvocationTable_0 ::
  "bool \<Rightarrow> invocation_0 \<Rightarrow> fhir_value list \<Rightarrow> state \<Rightarrow> fhir_value option list \<times> state" where
  "userInvocationTable_0 debug f inputs st = map_inputs (element_fn_0 debug f) inputs st"

definition organization_1234 :: ResponseJson where
  "organization_1234 = \<lparr>parameter = None, issue = None, content = ''Organization/1234''\<rparr>"

definition resolveAsync_0 :: "AsyncFunctionUserData \<Rightarrow> AsyncFunctionUserData" where
  "resolveAsync_0 d =
     (if val d = VString ''http://hl7.org/fhir/ValueSet/observation-vitalsignresult''
      then d\<lparr>evaluationCompleted := True, result := Some (VResource organization_1234)\<rparr>
      else d\<lparr>evaluationCompleted := True, result := None\<rparr>)"

definition memberOfAsync_0 :: "AsyncFunctionUserData \<Rightarrow> AsyncFunctionUserData" where
  "memberOfAsync_0 d =
     (if valueSet d = Some ''http://hl7.org/fhir/ValueSet/observation-vitalsignresult''
      then d\<lparr>evaluationCompleted := True, result := Some (VBool True)\<rparr>
      else d\<lparr>evaluationCompleted := True, result := Some (VBool False)\<rparr>)"

definition run_adapter_0 :: "AsyncFunctionUserData \<Rightarrow> AsyncFunctionUserData" where
  "run_adapter_0 d =
     (case asyncFunction d of ResolveAsync \<Rightarrow> resolveAsync_0 d | MemberOfAsync \<Rightarrow> memberOfAsync_0 d)"

definition resolve_key_0 :: "bool \<Rightarrow> state \<Rightarrow> string \<Rightarrow> state" where
  "resolve_key_0 debug st key =
     (case map_of (asyncCallsRequired st) key of
        None \<Rightarrow> logMessage debug (Note ''  performing async request for: '' (Some key)) st
      | Some d \<Rightarrow>
          if \<not> evaluationCompleted d
          then (start_call debug st key)
                 \<lparr>asyncCallsRequired := AList.update key (run_adapter_0 d) (asyncCallsRequired st)\<rparr>
          else st)"

definition resolve_phase_0 :: "bool \<Rightarrow> state \<Rightarrow> state" where
  "resolve_phase_0 debug st =
     (if asyncCallsRequired st = [] then st
      else (foldl (resolve_key_0 debug) st (map fst (asyncCallsRequired st)))
             \<lparr>requiresAsyncProcessing := False\<rparr>)"

text \<open>
  The handlers of this version hand \<^verbatim>\<open>undefined\<close> back to the engine. The list
  \<^verbatim>\<open>fhirpath.evaluate\<close> returns holds values only: the library leaves an
  \<^verbatim>\<open>undefined\<close> entry out of its result.
\<close>

definition fhirpath_evaluate_0 ::
  "('f \<Rightarrow> fhir_value list \<Rightarrow> 's \<Rightarrow> fhir_value option list \<times> 's) \<Rightarrow>
     ('f, fhir_value option) evaluation \<Rightarrow> 's \<Rightarrow> (string option + fhir_value list) \<times> 's" where
  "fhirpath_evaluate_0 table e st =
     (case fhirpath_evaluate table e st of
        (Inr vs, st1) \<Rightarrow> (Inr (filter_defined vs), st1)
      | (Inl message, st1) \<Rightarrow> (Inl message, st1))"

definition do_body_0 ::
  "bool \<Rightarrow> (invocation_0, fhir_value option) evaluation \<Rightarrow> nat \<Rightarrow> fhir_value list \<Rightarrow> state \<Rightarrow>
     (OperationOutcome \<times> state) + (fhir_value list \<times> state)" where
  "do_body_0 debug e its res st =
     (case fhirpath_evaluate_0 (userInvocationTable_0 debug) e
             (logMessage debug (Count ''performing iteration: '' its)
                (resolve_phase_0 debug st)) of
        (Inr vs, st2) \<Rightarrow> Inr (vs, st2)
      | (Inl message, st2) \<Rightarrow>
          if truthy message
          then Inl (CreateOperationOutcome ''fatal'' ''exception'' (js_string message) None, st2)
          else Inr (res, st2))"

function loop_0 ::
  "bool \<Rightarrow> (invocation_0, fhir_value option) evaluation \<Rightarrow> nat \<Rightarrow> fhir_value list \<Rightarrow> state \<Rightarrow>
     (OperationOutcome \<times> state) + fhir_value finished" where
  "loop_0 debug e its res st =
     (case do_body_0 debug e (Suc its) res st of
        Inl failure \<Rightarrow> Inl failure
      | Inr (res1, st1) \<Rightarrow>
          if requiresAsyncProcessing st1 \<and> Suc its < 10
          then loop_0 debug e (Suc its) res1 st1
          else Inr \<lparr>results = res1, iterations = Suc its, final = st1\<rparr>)"
  by pat_completeness auto
termination
  by (relation "measure (\<lambda>(debug, e, its, res, st). 10 - its)") auto

declare loop_0.simps [simp del]

definition run_0 ::
  "bool \<Rightarrow> (invocation_0, fhir_value option) evaluation \<Rightarrow>
     (OperationOutcome \<times> state) + fhir_value finished" where
  "run_0 debug e =
     (case loop_0 debug e 0 [] initial_state of
        Inl failure \<Rightarrow> Inl failure
      | Inr fin \<Rightarrow>
          Inr (if 1 < iterations fin
               then fin\<lparr>final := logMessage debug (Count ''total iterations'' (iterations fin))
                                    (final fin)\<rparr>
               else fin))"

definition evaluateFhirpathAsync_0 ::
  "bool \<Rightarrow> (invocation_0, fhir_value option) evaluation \<Rightarrow> OperationOutcome + fhir_value list" where
  "evaluateFhirpathAsync_0 debug e =
     (case run_0 debug e of Inl (failure, st) \<Rightarrow> Inl failure | Inr fin \<Rightarrow> Inr (results fin))"

section \<open>The first version of the membership handler (\<^verbatim>\<open>utils/fhirpath-async.ts\<close>)\<close>

text \<open>
  Here the map holds \<^verbatim>\<open>boolean | undefined\<close> per key. \<^verbatim>\<open>createIndexKey\<close> returns
  the empty string for a value with neither code nor coding, and reads
  \<^verbatim>\<open>value.coding[0].system\<close>, which throws a \<^verbatim>\<open>TypeError\<close> on an empty array. The
  handler appends the value set to whatever came back and never tests the key.
\<close>

datatype js_error = TypeError

fun createIndexKey :: "fhir_value \<Rightarrow> js_error + string" where
  "createIndexKey (VString s) = Inr s"
| "createIndexKey (VCoding c) = Inr (if truthy (code c) then coding_key c else [])"
| "createIndexKey (VCodeableConcept (Some [])) = Inl TypeError"
| "createIndexKey (VCodeableConcept (Some (c # cs))) = Inr (coding_key c)"
| "createIndexKey _ = Inr []"

record state_1 =
  memberOfCallsRequired :: "(string \<times> bool option) list"
  requiresAsyncProcessing_1 :: bool

definition memberOf_element_1 ::
  "string \<Rightarrow> fhir_value \<Rightarrow> state_1 \<Rightarrow> js_error + (bool option \<times> state_1)" where
  "memberOf_element_1 valueset i st =
     (case createIndexKey i of
        Inl err \<Rightarrow> Inl err
      | Inr k \<Rightarrow>
          (let key = k @ '' - '' @ valueset
           in case map_of (memberOfCallsRequired st) key of
                Some (Some b) \<Rightarrow> Inr (Some b, st)
              | _ \<Rightarrow> Inr (None,
                         st\<lparr>memberOfCallsRequired := AList.update key None (memberOfCallsRequired st),
                            requiresAsyncProcessing_1 := True\<rparr>)))"

fun memberOf_1 ::
  "string \<Rightarrow> fhir_value list \<Rightarrow> state_1 \<Rightarrow> js_error + (bool option list \<times> state_1)" where
  "memberOf_1 valueset [] st = Inr ([], st)"
| "memberOf_1 valueset (i # inputs) st =
     (case memberOf_element_1 valueset i st of
        Inl err \<Rightarrow> Inl err
      | Inr (v, st1) \<Rightarrow>
          (case memberOf_1 valueset inputs st1 of
             Inl err \<Rightarrow> Inl err
           | Inr (vs, st2) \<Rightarrow> Inr (v # vs, st2)))"

text \<open>The resolve loop of this version answers \<^verbatim>\<open>true\<close> for every pending key.\<close>

definition resolve_phase_1 :: "state_1 \<Rightarrow> state_1" where
  "resolve_phase_1 st =
     (if memberOfCallsRequired st = [] then st
      else \<lparr>memberOfCallsRequired =
              map (\<lambda>(key, v). (key, case v of None \<Rightarrow> Some True | Some b \<Rightarrow> Some b))
                (memberOfCallsRequired st),
            requiresAsyncProcessing_1 = False\<rparr>)"

section \<open>Example hosts and expressions\<close>

definition plain_clock :: clock where
  "plain_clock = \<lparr>today = (2024, 5, 17), local_fields = (\<lambda>(y, m, d). (int y, int m, int d))\<rparr>"

definition sys_m :: fhir_value where
  "sys_m = VCoding \<lparr>system = Some ''SYS'', code = Some ''M''\<rparr>"

definition member_result :: "bool \<Rightarrow> ResponseJson" where
  "member_result b =
     \<lparr>parameter = Some [\<lparr>name = ''result'', valueBoolean = Some b\<rparr>], issue = None, content = []\<rparr>"

text \<open>A terminology server that knows \<^verbatim>\<open>SYS|M\<close> in \<^verbatim>\<open>VS1\<close> and nothing else.\<close>

definition vs1_host :: host where
  "vs1_host =
     \<lparr>debugAsyncFhirpath = True, host_clock = plain_clock,
      fetch_json = (\<lambda>url. Rejected ''offline''),
      validate_code = (\<lambda>r. if r = GetCoding ''VS1'' ''SYS'' ''M''
                             then Responded (member_result True) else Rejected ''unknown''),
      latency = (\<lambda>key. 0)\<rparr>"

text \<open>
  \<^verbatim>\<open>memberOf('VS1')\<close> called on the Coding itself, and the expression
  \<^verbatim>\<open>code.memberOf('VS1')\<close> on the same Coding as data: there the engine walks the
  path \<^verbatim>\<open>code\<close> first, and the element the handler is given is the string
  \<^verbatim>\<open>M\<close>.
\<close>

definition memberOf_VS1_on_coding :: "(invocation, fhir_value) evaluation" where
  "memberOf_VS1_on_coding = Invoke (MemberOf ''VS1'') [sys_m] Return"

definition memberOf_VS1_on_code :: "(invocation, fhir_value) evaluation" where
  "memberOf_VS1_on_code = Invoke (MemberOf ''VS1'') [VString ''M''] Return"

text \<open>
  Two more terminology servers: one answers \<^verbatim>\<open>true\<close> for \<^verbatim>\<open>SYS|M\<close> in
  \<^verbatim>\<open>VS1\<close> and \<^verbatim>\<open>false\<close> for every other request; one knows the code \<^verbatim>\<open>M\<close>
  in \<^verbatim>\<open>VS1\<close> with and without its system.
\<close>

definition vs1_false_host :: host where
  "vs1_false_host =
     \<lparr>debugAsyncFhirpath = True, host_clock = plain_clock,
      fetch_json = (\<lambda>url. Rejected ''offline''),
      validate_code = (\<lambda>r. Responded (member_result (r = GetCoding ''VS1'' ''SYS'' ''M''))),
      latency = (\<lambda>key. 0)\<rparr>"

definition vs1_code_host :: host where
  "vs1_code_host =
     \<lparr>debugAsyncFhirpath = True, host_clock = plain_clock,
      fetch_json = (\<lambda>url. Rejected ''offline''),
      validate_code = (\<lambda>r. if r = GetCoding ''VS1'' ''SYS'' ''M'' \<or> r = GetCode (Some ''VS1'') ''M''
                             then Responded (member_result True) else Rejected ''unknown''),
      latency = (\<lambda>key. 0)\<rparr>"

text \<open>The registry after the membership of \<^verbatim>\<open>SYS|M\<close> in \<^verbatim>\<open>VS1\<close> was resolved.\<close>

definition vs1_resolved :: state where
  "vs1_resolved =
     \<lparr>asyncCallsRequired =
        [(''MemberOf:SYS|M - VS1'',
          \<lparr>evaluationCompleted = True, asyncFunction = MemberOfAsync,
           result = Some (VBool True), val = sys_m, valueSet = Some ''VS1''\<rparr>)],
      requiresAsyncProcessing = False, outcome = [],
      requested = [''MemberOf:SYS|M - VS1'']\<rparr>"

text \<open>
  A server that answers every reference with a document naming the reference, and an
  expression that follows links: \<^verbatim>\<open>resolve()\<close>, then \<^verbatim>\<open>resolve()\<close> of the link in
  what came back, \<open>n\<close> times. Each pass finds one reference more.
\<close>

definition echo_host :: host where
  "echo_host =
     \<lparr>debugAsyncFhirpath = False, host_clock = plain_clock,
      fetch_json = (\<lambda>url. Responded \<lparr>parameter = None, issue = None, content = url\<rparr>),
      validate_code = (\<lambda>r. Rejected ''unknown''),
      latency = (\<lambda>key. 0)\<rparr>"

fun linked :: "fhir_value \<Rightarrow> fhir_value" where
  "linked (VResource r) = VString (content r @ ''/next'')"
| "linked v = v"

primrec follow_links :: "nat \<Rightarrow> fhir_value list \<Rightarrow> (invocation, fhir_value) evaluation" where
  "follow_links 0 vs = Return vs"
| "follow_links (Suc n) vs = Invoke Resolve vs (\<lambda>out. follow_links n (map linked out))"




text \<open>
  A terminology server whose answer is a Parameters resource without a
  \<^verbatim>\<open>result\<close> parameter and without issues.
\<close>

definition mute_host :: host where
  "mute_host =
     \<lparr>debugAsyncFhirpath = False, host_clock = plain_clock,
      fetch_json = (\<lambda>url. Rejected ''offline''),
      validate_code = (\<lambda>r. Responded \<lparr>parameter = Some [], issue = None, content = []\<rparr>),
      latency = (\<lambda>key. 0)\<rparr>"

text \<open>
  A host without network, a server that answers a reference it does not know with its
  error document (status 404, which \<^verbatim>\<open>fetch\<close> does not reject), and a single
  \<^verbatim>\<open>resolve()\<close> of one reference.
\<close>

definition not_found_document :: ResponseJson where
  "not_found_document = \<lparr>parameter = None, issue = Some [''not-found''], content = ''OperationOutcome''\<rparr>"

definition not_found_host :: host where
  "not_found_host =
     \<lparr>debugAsyncFhirpath = False, host_clock = plain_clock,
      fetch_json = (\<lambda>url. Responded not_found_document),
      validate_code = (\<lambda>r. Rejected ''unknown''),
      latency = (\<lambda>key. 0)\<rparr>"

definition offline_host :: host where
  "offline_host =
     \<lparr>debugAsyncFhirpath = False, host_clock = plain_clock,
      fetch_json = (\<lambda>url. Rejected ''Failed to fetch''),
      validate_code = (\<lambda>r. Rejected ''Failed to fetch''),
      latency = (\<lambda>key. 0)\<rparr>"

definition resolve_one :: "string \<Rightarrow> (invocation, fhir_value) evaluation" where
  "resolve_one url = Invoke Resolve [VString url] Return"

definition resolve_one_0 :: "string \<Rightarrow> (invocation_0, fhir_value option) evaluation" where
  "resolve_one_0 url = Invoke Resolve_0 [VString url] Return"

text \<open>The same membership asked at two places of one expression.\<close>

definition twice_memberOf :: "(invocation, fhir_value) evaluation" where
  "twice_memberOf =
     Invoke (MemberOf ''VS1'') [sys_m]
       (\<lambda>first. Invoke (MemberOf ''VS1'') [sys_m] (\<lambda>second. Return (first @ second)))"

text \<open>A CodeableConcept that carries only text: no \<^verbatim>\<open>code\<close>, no \<^verbatim>\<open>coding\<close>.\<close>

definition text_only :: fhir_value where
  "text_only = VCodeableConcept None"

definition initial_state_1 :: state_1 where
  "initial_state_1 = \<lparr>memberOfCallsRequired = [], requiresAsyncProcessing_1 = False\<rparr>"

definition birthdays :: "(invocation, fhir_value) evaluation" where
  "birthdays =
     Invoke ToAge [VString ''1990-05-17'', VString ''2021-02-30'', VString ''17/05/1990'', VNumber 1990]
       Return"

section \<open>Calendar dates, said directly\<close>

text \<open>
  A valid \<^verbatim>\<open>YYYY-MM-DD\<close> calendar date, said directly: the shape, a month from 1 to
  12 and a day that exists in that month of that year.
\<close>

definition valid_calendar_date :: "string \<Rightarrow> bool" where
  "valid_calendar_date s =
     (dateRegex_test s \<and>
      1 \<le> number_of (take 2 (drop 5 s)) \<and> number_of (take 2 (drop 5 s)) \<le> 12 \<and>
      1 \<le> number_of (drop 8 s) \<and>
      number_of (drop 8 s) \<le> days_in_month (number_of (take 4 s)) (number_of (take 2 (drop 5 s))))"


fun valid_birthdate :: "fhir_value \<Rightarrow> bool" where
  "valid_birthdate (VString s) = valid_calendar_date s"
| "valid_birthdate v = False"

text \<open>The age \<^verbatim>\<open>birthdateToAge\<close> gives for a valid date, from the digits of the text.\<close>

fun age_of :: "clock \<Rightarrow> fhir_value \<Rightarrow> int" where
  "age_of clk (VString s) =
     age_between (today clk)
       (local_fields clk (number_of (take 4 s), number_of (take 2 (drop 5 s)), number_of (drop 8 s)))"
| "age_of clk v = 0"

text \<open>An expression whose only registered function is \<^verbatim>\<open>toAge\<close>.\<close>

inductive only_toAge :: "(invocation, fhir_value) evaluation \<Rightarrow> bool" where
  "only_toAge (Return vs)"
| "only_toAge (Throw m)"
| "(\<And>out. only_toAge (k out)) \<Longrightarrow> only_toAge (Invoke ToAge inputs k)"

section \<open>Observations on a run\<close>

definition passes :: "(OperationOutcome \<times> state) + fhir_value finished \<Rightarrow> nat option" where
  "passes r = (case r of Inl failure \<Rightarrow> None | Inr fin \<Rightarrow> Some (iterations fin))"

definition still_incomplete :: "(OperationOutcome \<times> state) + fhir_value finished \<Rightarrow> bool" where
  "still_incomplete r =
     (case r of Inl failure \<Rightarrow> False | Inr fin \<Rightarrow> requiresAsyncProcessing (final fin))"

definition requests :: "(OperationOutcome \<times> state) + fhir_value finished \<Rightarrow> string list" where
  "requests r = (case r of Inl (failure, st) \<Rightarrow> requested st | Inr fin \<Rightarrow> requested (final fin))"

definition outcome_of ::
  "(OperationOutcome \<times> state) + fhir_value finished \<Rightarrow> OperationOutcome + fhir_value list" where
  "outcome_of r = (case r of Inl (failure, st) \<Rightarrow> Inl failure | Inr fin \<Rightarrow> Inr (results fin))"

definition summary ::
  "(OperationOutcome \<times> state) + fhir_value finished \<Rightarrow>
     nat option \<times> bool \<times> string list \<times> (OperationOutcome + fhir_value list)" where
  "summary r = (passes r, still_incomplete r, requests r, outcome_of r)"







text \<open>
  An answer of the terminology server that \<^verbatim>\<open>memberOfAsync\<close> knows what to do with:
  a rejection, a document with issues, or one with a \<^verbatim>\<open>result\<close> parameter. A
  record the adapters can work on: its value has a fingerprint of the kind its adapter
  expects. An orderly state: one record per key, no key handed to an adapter twice,
  every key that was handed to an adapter completed, every record workable.
\<close>

definition recognised :: "fetch_result \<Rightarrow> bool" where
  "recognised r =
     (case r of
        Rejected message \<Rightarrow> True
      | Responded j \<Rightarrow>
          issue j \<noteq> None \<or>
          (case parameter j of None \<Rightarrow> False
           | Some ps \<Rightarrow> find (\<lambda>p. name p = ''result'') ps \<noteq> None))"

definition answers_every_check :: "host \<Rightarrow> bool" where
  "answers_every_check h = (\<forall>req. recognised (validate_code h req))"

definition resolvable :: "AsyncFunctionUserData \<Rightarrow> bool" where
  "resolvable d =
     (case asyncFunction d of
        ResolveAsync \<Rightarrow> truthy (createIndexKeyResolve (val d))
      | MemberOfAsync \<Rightarrow> memberOf_request (val d) (valueSet d) \<noteq> None)"

definition orderly :: "state \<Rightarrow> bool" where
  "orderly st =
     (distinct (map fst (asyncCallsRequired st)) \<and> distinct (requested st) \<and>
      list_all (get_evaluationCompleted st) (requested st) \<and>
      list_all (\<lambda>(key, d). resolvable d) (asyncCallsRequired st))"

definition filed :: "state \<Rightarrow> bool" where
  "filed st =
     (distinct (map fst (asyncCallsRequired st)) \<and>
      list_all (\<lambda>(key, d). resolvable d) (asyncCallsRequired st))"

text \<open>
  The key under which a handler looks an element up, when the element has a
  fingerprint; \<^verbatim>\<open>toAge\<close> looks nothing up.
\<close>

fun registry_key :: "invocation \<Rightarrow> fhir_value \<Rightarrow> string option" where
  "registry_key ToAge x = None"
| "registry_key Resolve x =
     (if truthy (createIndexKeyResolve x)
      then Some (''Resolve:'' @ js_string (createIndexKeyResolve x)) else None)"
| "registry_key (MemberOf vs) x =
     (if truthy (createIndexKeyMemberOf x vs)
      then Some (''MemberOf:'' @ js_string (createIndexKeyMemberOf x vs)) else None)"

text \<open>The record of \<open>key\<close> is completed and holds the result \<open>r\<close>.\<close>

definition completed_with :: "state \<Rightarrow> string \<Rightarrow> fhir_value option \<Rightarrow> bool" where
  "completed_with st key r =
     (case map_of (asyncCallsRequired st) key of
        None \<Rightarrow> False
      | Some d \<Rightarrow> evaluationCompleted d \<and> result d = r)"

text \<open>
  In \<open>st'\<close> the record of \<open>key\<close> is still completed with \<open>r\<close>, and no adapter
  was called for \<open>key\<close> since \<open>st\<close>.
\<close>

definition stable_from :: "state \<Rightarrow> string \<Rightarrow> fhir_value option \<Rightarrow> state \<Rightarrow> bool" where
  "stable_from st key r st' =
     (completed_with st' key r \<and> count_list (requested st') key = count_list (requested st) key)"

section \<open>Expressions without interceptable calls\<close>

text \<open>
  C7. An expression in which the engine calls no registered function is a tree
  without \<open>Invoke\<close>. The driver runs one pass: the map is empty, so the resolve phase
  is not entered and no adapter is called; the result list of the engine is returned as
  it is. When the engine throws instead of returning a list, the same single pass ends
  the run: with a fatal outcome when the error carries a message, with the empty
  initial list when it carries none.
\<close>

theorem no_calls_one_pass:
  "run h (Return vs) =
     Inr \<lparr>results = vs, iterations = 1,
          final = logMessage (debugAsyncFhirpath h) (Count ''performing iteration: '' 1) initial_state\<rparr>
   \<and> passes (run h (Return vs)) = Some 1
   \<and> requests (run h (Return vs)) = []
   \<and> evaluateFhirpathAsync h (Return vs) = Inr vs
   \<and> requests (run h (Throw m)) = []
   \<and> passes (run h (Throw m)) = (if truthy m then None else Some 1)
   \<and> evaluateFhirpathAsync h (Throw m) =
        (if truthy m then Inl (CreateOperationOutcome ''fatal'' ''exception'' (js_string m) None)
         else Inr [])"
  by (simp add: evaluateFhirpathAsync_def run_def loop.simps do_body_def resolve_phase_def
      initial_state_def logMessage_def requests_def passes_def)

section \<open>The membership scenario\<close>

lemma outcome_of_run: "outcome_of (run h e) = evaluateFhirpathAsync h e"
  by (simp add: outcome_of_def evaluateFhirpathAsync_def)

lemmas scenario_defs =
  do_body_def resolve_phase_def initial_state_def logMessage_def userInvocationTable_def
  memberOf_element_def lookup_or_register_def register_call_def get_evaluationCompleted_def
  get_result_def sys_m_def coding_key_def js_string_def truthy_def filter_defined_def
  pending_keys_def start_call_def run_adapter_def memberOfAsync_def or_empty_def
  member_result_def memberOf_VS1_on_coding_def memberOf_VS1_on_code_def

lemma coding_scenario:
  assumes "validate_code h (GetCoding ''VS1'' ''SYS'' ''M'') = Responded (member_result True)"
  shows "(\<exists>st1. do_body h memberOf_VS1_on_coding 1 [] initial_state = Inr ([], st1) \<and>
       requiresAsyncProcessing st1 \<and> pending_keys st1 = [''MemberOf:SYS|M - VS1''] \<and>
       (\<exists>st2. resolve_phase h st1 = Inr st2 \<and>
          get_evaluationCompleted st2 ''MemberOf:SYS|M - VS1'' \<and>
          get_result st2 ''MemberOf:SYS|M - VS1'' = Some (VBool True) \<and>
          (\<exists>st3. do_body h memberOf_VS1_on_coding 2 [] st1 = Inr ([VBool True], st3) \<and>
             \<not> requiresAsyncProcessing st3))) \<and>
    (\<exists>fin. run h memberOf_VS1_on_coding = Inr fin \<and> results fin = [VBool True] \<and>
       iterations fin = 2 \<and> \<not> requiresAsyncProcessing (final fin) \<and>
       requested (final fin) = [''MemberOf:SYS|M - VS1'']) \<and>
    evaluateFhirpathAsync h memberOf_VS1_on_coding = Inr [VBool True]"
proof -
  have passes: "\<exists>st1. do_body h memberOf_VS1_on_coding 1 [] initial_state = Inr ([], st1) \<and>
       requiresAsyncProcessing st1 \<and> pending_keys st1 = [''MemberOf:SYS|M - VS1''] \<and>
       (\<exists>st2. resolve_phase h st1 = Inr st2 \<and>
          get_evaluationCompleted st2 ''MemberOf:SYS|M - VS1'' \<and>
          get_result st2 ''MemberOf:SYS|M - VS1'' = Some (VBool True) \<and>
          (\<exists>st3. do_body h memberOf_VS1_on_coding 2 [] st1 = Inr ([VBool True], st3) \<and>
             \<not> requiresAsyncProcessing st3))"
    using assms by (simp add: scenario_defs)
  have whole: "\<exists>fin. run h memberOf_VS1_on_coding = Inr fin \<and> results fin = [VBool True] \<and>
       iterations fin = 2 \<and> \<not> requiresAsyncProcessing (final fin) \<and>
       requested (final fin) = [''MemberOf:SYS|M - VS1'']"
    using assms by (simp add: run_def loop.simps scenario_defs)
  then have "evaluateFhirpathAsync h memberOf_VS1_on_coding = Inr [VBool True]"
    by (auto simp: evaluateFhirpathAsync_def)
  with passes whole show ?thesis by blast
qed

lemma code_scenario:
  assumes "validate_code h (GetCode (Some ''VS1'') ''M'') = Responded (member_result True)"
  shows "(\<exists>st1. do_body h memberOf_VS1_on_code 1 [] initial_state = Inr ([], st1) \<and>
       requiresAsyncProcessing st1 \<and> pending_keys st1 = [''MemberOf:M - VS1''] \<and>
       (\<exists>st2. resolve_phase h st1 = Inr st2 \<and>
          get_evaluationCompleted st2 ''MemberOf:M - VS1'' \<and>
          get_result st2 ''MemberOf:M - VS1'' = Some (VBool True) \<and>
          (\<exists>st3. do_body h memberOf_VS1_on_code 2 [] st1 = Inr ([VBool True], st3) \<and>
             \<not> requiresAsyncProcessing st3))) \<and>
    (\<exists>fin. run h memberOf_VS1_on_code = Inr fin \<and> results fin = [VBool True] \<and>
       iterations fin = 2 \<and> \<not> requiresAsyncProcessing (final fin) \<and>
       requested (final fin) = [''MemberOf:M - VS1'']) \<and>
    evaluateFhirpathAsync h memberOf_VS1_on_code = Inr [VBool True]"
proof -
  have passes: "\<exists>st1. do_body h memberOf_VS1_on_code 1 [] initial_state = Inr ([], st1) \<and>
       requiresAsyncProcessing st1 \<and> pending_keys st1 = [''MemberOf:M - VS1''] \<and>
       (\<exists>st2. resolve_phase h st1 = Inr st2 \<and>
          get_evaluationCompleted st2 ''MemberOf:M - VS1'' \<and>
          get_result st2 ''MemberOf:M - VS1'' = Some (VBool True) \<and>
          (\<exists>st3. do_body h memberOf_VS1_on_code 2 [] st1 = Inr ([VBool True], st3) \<and>
             \<not> requiresAsyncProcessing st3))"
    using assms by (simp add: scenario_defs)
  have whole: "\<exists>fin. run h memberOf_VS1_on_code = Inr fin \<and> results fin = [VBool True] \<and>
       iterations fin = 2 \<and> \<not> requiresAsyncProcessing (final fin) \<and>
       requested (final fin) = [''MemberOf:M - VS1'']"
    using assms by (simp add: run_def loop.simps scenario_defs)
  then have "evaluateFhirpathAsync h memberOf_VS1_on_code = Inr [VBool True]"
    by (auto simp: evaluateFhirpathAsync_def)
  with passes whole show ?thesis by blast
qed

text \<open>
  C5 (amended). For the expression \<^verbatim>\<open>code.memberOf('VS1')\<close> the element handed to
  the handler is the string \<^verbatim>\<open>M\<close>: its fingerprint is \<^verbatim>\<open>M - VS1\<close>, without the
  system, and the adapter asks the server for the code alone. When the server answers
  that request with \<^verbatim>\<open>result = true\<close>: the first pass returns the empty list, leaves
  the fingerprint pending and asks for another pass; the resolve phase completes the
  record with \<^verbatim>\<open>true\<close>; the second pass returns \<^verbatim>\<open>[true]\<close> and asks for nothing;
  the driver stops after two passes with \<^verbatim>\<open>[true]\<close>. The fingerprint
  \<^verbatim>\<open>SYS|M - VS1\<close> is that of the Coding itself: when \<^verbatim>\<open>memberOf('VS1')\<close> is called
  on the Coding and the server answers the request with system and code with
  \<^verbatim>\<open>result = true\<close>, the same steps follow.
\<close>

theorem membership_scenario:
  "createIndexKeyMemberOf (VString ''M'') ''VS1'' = Some ''M - VS1'' \<and>
   memberOf_request (VString ''M'') (Some ''VS1'') = Some (GetCode (Some ''VS1'') ''M'') \<and>
   (validate_code h (GetCode (Some ''VS1'') ''M'') = Responded (member_result True) \<longrightarrow>
      (\<exists>st1. do_body h memberOf_VS1_on_code 1 [] initial_state = Inr ([], st1) \<and>
         requiresAsyncProcessing st1 \<and> pending_keys st1 = [''MemberOf:M - VS1''] \<and>
         (\<exists>st2. resolve_phase h st1 = Inr st2 \<and>
            get_evaluationCompleted st2 ''MemberOf:M - VS1'' \<and>
            get_result st2 ''MemberOf:M - VS1'' = Some (VBool True) \<and>
            (\<exists>st3. do_body h memberOf_VS1_on_code 2 [] st1 = Inr ([VBool True], st3) \<and>
               \<not> requiresAsyncProcessing st3))) \<and>
      (\<exists>fin. run h memberOf_VS1_on_code = Inr fin \<and> results fin = [VBool True] \<and>
         iterations fin = 2 \<and> \<not> requiresAsyncProcessing (final fin) \<and>
         requested (final fin) = [''MemberOf:M - VS1'']) \<and>
      evaluateFhirpathAsync h memberOf_VS1_on_code = Inr [VBool True]) \<and>
   createIndexKeyMemberOf sys_m ''VS1'' = Some ''SYS|M - VS1'' \<and>
   memberOf_request sys_m (Some ''VS1'') = Some (GetCoding ''VS1'' ''SYS'' ''M'') \<and>
   (validate_code h (GetCoding ''VS1'' ''SYS'' ''M'') = Responded (member_result True) \<longrightarrow>
      (\<exists>st1. do_body h memberOf_VS1_on_coding 1 [] initial_state = Inr ([], st1) \<and>
         requiresAsyncProcessing st1 \<and> pending_keys st1 = [''MemberOf:SYS|M - VS1''] \<and>
         (\<exists>st2. resolve_phase h st1 = Inr st2 \<and>
            get_evaluationCompleted st2 ''MemberOf:SYS|M - VS1'' \<and>
            get_result st2 ''MemberOf:SYS|M - VS1'' = Some (VBool True) \<and>
            (\<exists>st3. do_body h memberOf_VS1_on_coding 2 [] st1 = Inr ([VBool True], st3) \<and>
               \<not> requiresAsyncProcessing st3))) \<and>
      (\<exists>fin. run h memberOf_VS1_on_coding = Inr fin \<and> results fin = [VBool True] \<and>
         iterations fin = 2 \<and> \<not> requiresAsyncProcessing (final fin) \<and>
         requested (final fin) = [''MemberOf:SYS|M - VS1'']) \<and>
      evaluateFhirpathAsync h memberOf_VS1_on_coding = Inr [VBool True])"
proof -
  have "createIndexKeyMemberOf (VString ''M'') ''VS1'' = Some ''M - VS1''"
    and "memberOf_request (VString ''M'') (Some ''VS1'') = Some (GetCode (Some ''VS1'') ''M'')"
    and "createIndexKeyMemberOf sys_m ''VS1'' = Some ''SYS|M - VS1''"
    and "memberOf_request sys_m (Some ''VS1'') = Some (GetCoding ''VS1'' ''SYS'' ''M'')"
    by (simp_all add: sys_m_def coding_key_def js_string_def truthy_def or_empty_def)
  with code_scenario [of h] coding_scenario [of h] show ?thesis by blast
qed

theorem membership_scenario_witness:
  "validate_code vs1_code_host (GetCode (Some ''VS1'') ''M'') = Responded (member_result True) \<and>
   validate_code vs1_code_host (GetCoding ''VS1'' ''SYS'' ''M'') = Responded (member_result True) \<and>
   evaluateFhirpathAsync vs1_code_host memberOf_VS1_on_code = Inr [VBool True] \<and>
   evaluateFhirpathAsync vs1_code_host memberOf_VS1_on_coding = Inr [VBool True]"
proof -
  have "validate_code vs1_code_host (GetCode (Some ''VS1'') ''M'') = Responded (member_result True)"
    and "validate_code vs1_code_host (GetCoding ''VS1'' ''SYS'' ''M'') = Responded (member_result True)"
    by (simp_all add: vs1_code_host_def)
  with membership_scenario [of vs1_code_host] show ?thesis by blast
qed

text \<open>
  C5 as stated fails: the adapter that maps \<^verbatim>\<open>SYS|M - VS1\<close> to \<^verbatim>\<open>true\<close> is never
  asked about that fingerprint. On a server that knows \<^verbatim>\<open>SYS|M\<close> in \<^verbatim>\<open>VS1\<close> and
  refuses every other request, \<^verbatim>\<open>code.memberOf('VS1')\<close> registers the fingerprint
  \<^verbatim>\<open>M - VS1\<close> and the evaluation fails; on one that answers \<^verbatim>\<open>false\<close> to every
  other request, the second pass returns \<^verbatim>\<open>[false]\<close>.
\<close>

theorem code_fingerprint_has_no_system:
  "validate_code vs1_host (GetCoding ''VS1'' ''SYS'' ''M'') = Responded (member_result True) \<and>
   requests (run vs1_host memberOf_VS1_on_code) = [''MemberOf:M - VS1''] \<and>
   evaluateFhirpathAsync vs1_host memberOf_VS1_on_code =
     Inl (CreateOperationOutcome ''error'' ''exception''
            ''Failed to check membership: M - VS1'' (Some ''unknown'')) \<and>
   validate_code vs1_false_host (GetCoding ''VS1'' ''SYS'' ''M'') = Responded (member_result True) \<and>
   requests (run vs1_false_host memberOf_VS1_on_code) = [''MemberOf:M - VS1''] \<and>
   evaluateFhirpathAsync vs1_false_host memberOf_VS1_on_code = Inr [VBool False]"
proof -
  have "summary (run vs1_host memberOf_VS1_on_code) =
      (None, False, [''MemberOf:M - VS1''],
       Inl (CreateOperationOutcome ''error'' ''exception''
              ''Failed to check membership: M - VS1'' (Some ''unknown'')))"
    by code_simp
  moreover have "summary (run vs1_false_host memberOf_VS1_on_code) =
      (Some 2, False, [''MemberOf:M - VS1''], Inr [VBool False])"
    by code_simp
  moreover have "validate_code vs1_host (GetCoding ''VS1'' ''SYS'' ''M'') = Responded (member_result True)"
    and "validate_code vs1_false_host (GetCoding ''VS1'' ''SYS'' ''M'') = Responded (member_result True)"
    by (simp_all add: vs1_host_def vs1_false_host_def)
  ultimately show ?thesis
    using outcome_of_run [of vs1_host memberOf_VS1_on_code]
      outcome_of_run [of vs1_false_host memberOf_VS1_on_code]
    by (simp add: summary_def)
qed

section \<open>The iteration bound\<close>

lemma loop_step:
  assumes "do_body h e (Suc its) res st = Inr (res1, st1)"
  shows "requiresAsyncProcessing st1 \<and> Suc its < 10 \<Longrightarrow>
           loop h e its res st = loop h e (Suc its) res1 st1"
    and "\<not> (requiresAsyncProcessing st1 \<and> Suc its < 10) \<Longrightarrow>
           loop h e its res st = Inr \<lparr>results = res1, iterations = Suc its, final = st1\<rparr>"
  using assms by (auto simp: loop.simps [of h e its])

lemma loop_failure:
  "do_body h e (Suc its) res st = Inl failure \<Longrightarrow> loop h e its res st = Inl failure"
  by (simp add: loop.simps [of h e its])

lemma loop_bound:
  "loop h e its res st = Inr fin \<Longrightarrow>
     its < iterations fin \<and> iterations fin \<le> max 10 (Suc its) \<and>
     (requiresAsyncProcessing (final fin) \<longrightarrow> 10 \<le> iterations fin)"
proof (induction h e its res st rule: loop.induct)
  case (1 h e its res st)
  show ?case
  proof (cases "do_body h e (Suc its) res st")
    case (Inl failure)
    with "1.prems" loop_failure [OF Inl] show ?thesis by simp
  next
    case (Inr p)
    obtain res1 st1 where p: "p = (res1, st1)" by (cases p)
    with Inr have body: "do_body h e (Suc its) res st = Inr (res1, st1)" by simp
    show ?thesis
    proof (cases "requiresAsyncProcessing st1 \<and> Suc its < 10")
      case True
      with loop_step(1) [OF body] "1.prems" have "loop h e (Suc its) res1 st1 = Inr fin"
        by simp
      from "1.IH" [OF Inr p [symmetric] True this] True show ?thesis by auto
    next
      case False
      with loop_step(2) [OF body] "1.prems"
      have "fin = \<lparr>results = res1, iterations = Suc its, final = st1\<rparr>" by simp
      with False show ?thesis by auto
    qed
  qed
qed

text \<open>
  C1 (amended). Every run makes at least one and at most ten passes. A run that is
  still incomplete when it stops, as when every pass brings a new fingerprint, has made
  exactly ten. What the caller then gets is the result list of the last pass, as for
  any other run.
\<close>

theorem bounded_passes:
  assumes "run h e = Inr fin"
  shows "1 \<le> iterations fin \<and> iterations fin \<le> 10 \<and>
     (requiresAsyncProcessing (final fin) \<longrightarrow> iterations fin = 10) \<and>
     evaluateFhirpathAsync h e = Inr (results fin)"
proof -
  from assms obtain fin0 where l: "loop h e 0 [] initial_state = Inr fin0"
    and f: "fin = (if 1 < iterations fin0
               then fin0\<lparr>final := logMessage (debugAsyncFhirpath h)
                                    (Count ''total iterations'' (iterations fin0)) (final fin0)\<rparr>
               else fin0)"
    by (auto simp: run_def split: sum.splits)
  from loop_bound [OF l] have b: "0 < iterations fin0" "iterations fin0 \<le> 10"
    "requiresAsyncProcessing (final fin0) \<longrightarrow> 10 \<le> iterations fin0" by auto
  from f have same: "iterations fin = iterations fin0" "results fin = results fin0"
    "requiresAsyncProcessing (final fin) = requiresAsyncProcessing (final fin0)"
    by (auto simp: logMessage_def)
  from assms have "evaluateFhirpathAsync h e = Inr (results fin)"
    by (simp add: evaluateFhirpathAsync_def)
  with b same show ?thesis by auto
qed


lemma follow_links_summary:
  "summary (run echo_host (follow_links 11 [VString ''a''])) =
     (Some 10, True,
      [''Resolve:a'', ''Resolve:a/next'', ''Resolve:a/next/next'', ''Resolve:a/next/next/next'',
       ''Resolve:a/next/next/next/next'', ''Resolve:a/next/next/next/next/next'',
       ''Resolve:a/next/next/next/next/next/next'',
       ''Resolve:a/next/next/next/next/next/next/next'',
       ''Resolve:a/next/next/next/next/next/next/next/next''],
      Inr [])"
  by code_simp

theorem bounded_passes_witness:
  "\<exists>fin. run echo_host (follow_links 11 [VString ''a'']) = Inr fin \<and>
     iterations fin = 10 \<and> requiresAsyncProcessing (final fin) \<and>
     evaluateFhirpathAsync echo_host (follow_links 11 [VString ''a'']) = Inr (results fin)"
proof -
  from follow_links_summary
  have "passes (run echo_host (follow_links 11 [VString ''a''])) = Some 10"
    and inc: "still_incomplete (run echo_host (follow_links 11 [VString ''a'']))"
    by (simp_all add: summary_def)
  then obtain fin where r: "run echo_host (follow_links 11 [VString ''a'']) = Inr fin"
    by (auto simp: passes_def split: sum.splits)
  with inc have "requiresAsyncProcessing (final fin)" by (simp add: still_incomplete_def)
  with r bounded_passes [OF r] show ?thesis by auto
qed

text \<open>
  C1 as stated fails in its last part. With a server that answers every reference and
  an expression that follows eleven links, the driver stops after ten passes, nine
  distinct fingerprints requested and the last pass still asking for more; the caller
  gets the empty list, exactly what a complete run of an expression with an empty
  result gives.
\<close>

theorem bound_reached_silently:
  "passes (run echo_host (follow_links 11 [VString ''a''])) = Some 10 \<and>
   still_incomplete (run echo_host (follow_links 11 [VString ''a''])) \<and>
   length (requests (run echo_host (follow_links 11 [VString ''a'']))) = 9 \<and>
   distinct (requests (run echo_host (follow_links 11 [VString ''a'']))) \<and>
   evaluateFhirpathAsync echo_host (follow_links 11 [VString ''a'']) = Inr [] \<and>
   still_incomplete (run echo_host (Return [])) = False \<and>
   evaluateFhirpathAsync echo_host (Return []) = Inr []"
proof -
  have "still_incomplete (run echo_host (Return [])) = False"
    and "evaluateFhirpathAsync echo_host (Return []) = Inr []"
    by (simp_all add: still_incomplete_def evaluateFhirpathAsync_def run_def loop.simps
        do_body_def resolve_phase_def initial_state_def logMessage_def)
  with follow_links_summary outcome_of_run [of echo_host "follow_links 11 [VString ''a'']"]
  show ?thesis by (simp add: summary_def)
qed

section \<open>Completed records\<close>

lemma logMessage_fields [simp]:
  "asyncCallsRequired (logMessage dbg x st) = asyncCallsRequired st"
  "requiresAsyncProcessing (logMessage dbg x st) = requiresAsyncProcessing st"
  "requested (logMessage dbg x st) = requested st"
  by (simp_all add: logMessage_def)

lemma completed_with_logMessage [simp]:
  "completed_with (logMessage dbg x st) key r = completed_with st key r"
  by (simp add: completed_with_def)

lemma completed_with_get:
  "completed_with st key r \<Longrightarrow> get_evaluationCompleted st key \<and> get_result st key = r"
  by (auto simp: completed_with_def get_evaluationCompleted_def get_result_def split: option.splits)

lemma lookup_or_register_keeps:
  assumes "completed_with st key r"
  shows "completed_with (snd (lookup_or_register dbg k d st)) key r"
proof (cases "get_evaluationCompleted st k")
  case True
  with assms show ?thesis by (simp add: lookup_or_register_def)
next
  case False
  with assms have "k \<noteq> key" using completed_with_get by blast
  with assms False show ?thesis
    by (simp add: lookup_or_register_def register_call_def completed_with_def update_conv')
qed

lemma lookup_or_register_cached:
  assumes "completed_with st key r"
  shows "lookup_or_register dbg key d st =
           (r, logMessage dbg (Note ''  using cached result for: '' (Some key)) st)"
  using completed_with_get [OF assms] by (simp add: lookup_or_register_def)

lemma element_fn_keeps:
  assumes "completed_with st key r"
  shows "completed_with (snd (element_fn dbg clk f x st)) key r"
  using assms
  by (cases f) (simp_all add: toAge_element_def resolve_element_def memberOf_element_def Let_def
      lookup_or_register_keeps)

lemma element_fn_cached:
  assumes "completed_with st key r" and "registry_key f x = Some key"
  shows "element_fn dbg clk f x st =
           (r, logMessage dbg (Note ''  using cached result for: '' (Some key)) st)"
  using assms
  by (cases f) (auto simp: resolve_element_def memberOf_element_def Let_def
      lookup_or_register_cached split: if_splits)

lemma map_inputs_keeps:
  assumes "\<And>x st. P st \<Longrightarrow> P (snd (f x st))" and "P st"
  shows "P (snd (map_inputs f xs st))"
  using assms(2)
proof (induction xs arbitrary: st)
  case Nil
  then show ?case by simp
next
  case (Cons x xs)
  from assms(1) [OF Cons.prems] have "P (snd (f x st))" .
  from Cons.IH [OF this] show ?case by (auto split: prod.splits)
qed

lemma table_keeps:
  assumes "completed_with st key r"
  shows "completed_with (snd (userInvocationTable dbg clk f inputs st)) key r"
proof -
  have "completed_with (snd (map_inputs (element_fn dbg clk f) inputs st)) key r"
    by (rule map_inputs_keeps [where P = "\<lambda>s. completed_with s key r"]) (auto intro: element_fn_keeps assms)
  then show ?thesis by (auto simp: userInvocationTable_def split: prod.splits)
qed

lemma evaluate_keeps:
  assumes "\<And>f inputs st. P st \<Longrightarrow> P (snd (table f inputs st))" and "P st"
  shows "P (snd (fhirpath_evaluate table e st))"
  using assms(2)
proof (induction e arbitrary: st)
  case (Return vs)
  then show ?case by simp
next
  case (Throw m)
  then show ?case by simp
next
  case (Invoke f inputs k)
  from assms(1) [OF Invoke.prems] have "P (snd (table f inputs st))" .
  then show ?case using Invoke.IH by (simp split: prod.splits) (metis rangeI snd_conv)
qed


lemma write_record_fields [simp]:
  "requiresAsyncProcessing (write_record h st k) = requiresAsyncProcessing st"
  "requested (write_record h st k) = requested st"
  "outcome (write_record h st k) = outcome st"
  by (simp_all add: write_record_def split: option.splits)

lemma write_records_keeps:
  assumes "\<And>s k. P s \<Longrightarrow> P (write_record h s k)" and "P st"
  shows "P (foldl (write_record h) st ks)"
  using assms(2) by (induction ks arbitrary: st) (simp_all add: assms(1))

lemma write_records_other:
  assumes "key \<notin> set ks"
  shows "map_of (asyncCallsRequired (foldl (write_record h) st ks)) key =
           map_of (asyncCallsRequired st) key \<and>
         requested (foldl (write_record h) st ks) = requested st \<and>
         outcome (foldl (write_record h) st ks) = outcome st"
  using assms
  by (induction ks arbitrary: st) (auto simp: write_record_def update_conv' split: option.splits)

lemma run_adapter_keeps_completed:
  "evaluationCompleted d \<Longrightarrow> evaluationCompleted (fst (run_adapter h d))"
  by (auto simp: run_adapter_def resolveAsync_def memberOfAsync_def Let_def
      split: adapter.splits fetch_result.splits option.splits if_splits)

lemma write_record_completed:
  "get_evaluationCompleted st k' \<Longrightarrow> get_evaluationCompleted (write_record h st k) k'"
  by (auto simp: get_evaluationCompleted_def write_record_def update_conv'
      run_adapter_keeps_completed split: option.splits)

lemma settle_other_key:
  assumes "key \<notin> set keys"
  shows "(settle h keys st = Inr st' \<or> settle h keys st = Inl (failure, st')) \<Longrightarrow>
     map_of (asyncCallsRequired st') key = map_of (asyncCallsRequired st) key \<and>
     requested st' = requested st \<and> outcome st' = outcome st"
  using assms
proof (induction keys arbitrary: st)
  case Nil
  then show ?case by auto
next
  case (Cons k ks)
  then have ne: "k \<noteq> key" and notin: "key \<notin> set ks" by auto
  show ?case
  proof (cases "map_of (asyncCallsRequired st) k")
    case None
    with Cons.prems(1) have "settle h ks st = Inr st' \<or> settle h ks st = Inl (failure, st')" by simp
    from Cons.IH [OF this notin] show ?thesis .
  next
    case (Some d)
    obtain d1 err where ra: "run_adapter h d = (d1, err)" by (cases "run_adapter h d")
    let ?st1 = "st\<lparr>asyncCallsRequired := AList.update k d1 (asyncCallsRequired st)\<rparr>"
    show ?thesis
    proof (cases err)
      case None
      with Cons.prems(1) Some ra
      have "settle h ks ?st1 = Inr st' \<or> settle h ks ?st1 = Inl (failure, st')" by simp
      from Cons.IH [OF this notin] ne show ?thesis by (simp add: update_conv')
    next
      case (Some e)
      let ?turn = "takeWhile (\<lambda>k'. latency h k' = latency h k) ks"
      from Some Cons.prems(1) \<open>map_of (asyncCallsRequired st) k = Some d\<close> ra
      have st': "st' = foldl (write_record h) ?st1 ?turn" by simp
      from notin have "key \<notin> set ?turn" by (auto dest: set_takeWhileD)
      from write_records_other [OF this, of h ?st1] st' ne show ?thesis
        by (simp add: update_conv')
    qed
  qed
qed

lemma start_calls_fields [simp]:
  "asyncCallsRequired (foldl (start_call dbg) st keys) = asyncCallsRequired st"
  "requiresAsyncProcessing (foldl (start_call dbg) st keys) = requiresAsyncProcessing st"
  "requested (foldl (start_call dbg) st keys) = requested st @ keys"
  by (induction keys arbitrary: st) (simp_all add: start_call_def)

lemma completed_not_pending:
  "completed_with st key r \<Longrightarrow> key \<notin> set (pending_keys st)"
  by (auto simp: completed_with_def pending_keys_def split: option.splits)

lemma resolve_phase_keeps:
  assumes "completed_with st key r"
    and "resolve_phase h st = Inr st' \<or> resolve_phase h st = Inl (failure, st')"
  shows "completed_with st' key r \<and> count_list (requested st') key = count_list (requested st) key"
proof (cases "asyncCallsRequired st = []")
  case True
  with assms show ?thesis by (simp add: resolve_phase_def)
next
  case False
  let ?keys = "pending_keys st"
  let ?st1 = "foldl (start_call (debugAsyncFhirpath h)) st ?keys"
  have notin: "key \<notin> set (sort_key (latency h) ?keys)"
    using completed_not_pending [OF assms(1)] by simp
  from assms(2) False obtain st2 where
    s: "settle h (sort_key (latency h) ?keys) ?st1 = Inr st2 \<or>
        settle h (sort_key (latency h) ?keys) ?st1 = Inl (failure, st2)"
    and st': "asyncCallsRequired st' = asyncCallsRequired st2" "requested st' = requested st2"
    by (auto simp: resolve_phase_def Let_def split: sum.splits)
  from settle_other_key [OF notin s] st' assms(1) completed_not_pending [OF assms(1)]
  show ?thesis by (simp add: completed_with_def)
qed


lemma table_requested:
  "requested (snd (userInvocationTable dbg clk f inputs st)) = requested st"
proof -
  have el: "\<And>x s. requested (snd (element_fn dbg clk f x s)) = requested s"
    by (cases f) (simp_all add: toAge_element_def resolve_element_def memberOf_element_def Let_def
        lookup_or_register_def register_call_def)
  have "requested (snd (map_inputs (element_fn dbg clk f) inputs st)) = requested st"
    by (rule map_inputs_keeps [where P = "\<lambda>s. requested s = requested st"]) (simp_all add: el)
  then show ?thesis by (auto simp: userInvocationTable_def split: prod.splits)
qed

lemma pass_keeps:
  assumes "completed_with st key r"
  shows "stable_from st key r (snd (fhirpath_evaluate (userInvocationTable dbg clk) e st))"
  unfolding stable_from_def
  by (rule evaluate_keeps [where P = "\<lambda>s. completed_with s key r \<and>
        count_list (requested s) key = count_list (requested st) key"])
     (simp_all add: table_keeps table_requested assms)

lemma do_body_keeps:
  assumes "completed_with st key r"
    and "do_body h e its res st = Inr (res1, st') \<or> do_body h e its res st = Inl (failure, st')"
  shows "stable_from st key r st'"
proof (cases "resolve_phase h st")
  case (Inl p)
  with assms(2) have "resolve_phase h st = Inl (failure, st')" by (auto simp: do_body_def)
  with resolve_phase_keeps [OF assms(1)] show ?thesis by (auto simp: stable_from_def)
next
  case (Inr st1)
  with resolve_phase_keeps [OF assms(1)] have k1: "completed_with st1 key r"
    and c1: "count_list (requested st1) key = count_list (requested st) key" by auto
  let ?st1 = "logMessage (debugAsyncFhirpath h) (Count ''performing iteration: '' its) st1"
  from k1 have "completed_with ?st1 key r" by simp
  from pass_keeps [OF this, of "debugAsyncFhirpath h" "host_clock h" e]
  have "stable_from ?st1 key r
          (snd (fhirpath_evaluate (userInvocationTable (debugAsyncFhirpath h) (host_clock h)) e ?st1))" .
  moreover from assms(2) Inr
  have "st' = snd (fhirpath_evaluate (userInvocationTable (debugAsyncFhirpath h) (host_clock h)) e ?st1)"
    by (auto simp: do_body_def split: prod.splits sum.splits if_splits)
  ultimately show ?thesis using c1 by (simp add: stable_from_def)
qed

lemma loop_keeps:
  assumes "completed_with st key r"
  shows "(loop h e its res st = Inr fin \<longrightarrow> stable_from st key r (final fin)) \<and>
         (loop h e its res st = Inl (failure, st') \<longrightarrow> stable_from st key r st')"
  using assms
proof (induction h e its res st rule: loop.induct)
  case (1 h e its res st)
  show ?case
  proof (cases "do_body h e (Suc its) res st")
    case (Inl p)
    note l = loop_failure [OF Inl]
    show ?thesis
    proof (cases "p = (failure, st')")
      case True
      with Inl do_body_keeps [OF "1.prems", of h e "Suc its" res _ st' failure] l
      show ?thesis by auto
    next
      case False
      with l show ?thesis by auto
    qed
  next
    case (Inr p)
    obtain res1 st1 where p: "p = (res1, st1)" by (cases p)
    with Inr have body: "do_body h e (Suc its) res st = Inr (res1, st1)" by simp
    from do_body_keeps [OF "1.prems", of h e "Suc its" res res1 st1] body
    have s1: "stable_from st key r st1" by simp
    show ?thesis
    proof (cases "requiresAsyncProcessing st1 \<and> Suc its < 10")
      case True
      from s1 have "completed_with st1 key r" by (simp add: stable_from_def)
      from "1.IH" [OF Inr p [symmetric] True this] s1 loop_step(1) [OF body True]
      show ?thesis by (auto simp: stable_from_def)
    next
      case False
      with s1 loop_step(2) [OF body False] show ?thesis by auto
    qed
  qed
qed

lemma filter_defined_append:
  "filter_defined (a @ b) = filter_defined a @ filter_defined b"
  by (simp add: filter_defined_def)

lemma filter_defined_single:
  "filter_defined [r] = (case r of None \<Rightarrow> [] | Some v \<Rightarrow> [v])"
  by (simp add: filter_defined_def split: option.splits)

lemma map_inputs_append:
  "map_inputs f (xs @ ys) st =
     (case map_inputs f xs st of (a, st1) \<Rightarrow>
        case map_inputs f ys st1 of (b, st2) \<Rightarrow> (a @ b, st2))"
  by (induction xs arbitrary: st) (auto split: prod.splits)

lemma table_nil: "userInvocationTable dbg clk f [] st = ([], st)"
  by (simp add: userInvocationTable_def filter_defined_def)

lemma table_returns_stored:
  assumes "completed_with st key r" and "registry_key f x = Some key"
  shows "fst (userInvocationTable dbg clk f (xs @ x # ys) st) =
           fst (userInvocationTable dbg clk f xs st) @ (case r of None \<Rightarrow> [] | Some v \<Rightarrow> [v]) @
           fst (userInvocationTable dbg clk f ys
                  (logMessage dbg (Note ''  using cached result for: '' (Some key))
                     (snd (userInvocationTable dbg clk f xs st))))"
proof -
  obtain a st1 where m1: "map_inputs (element_fn dbg clk f) xs st = (a, st1)"
    by (cases "map_inputs (element_fn dbg clk f) xs st")
  have "completed_with (snd (map_inputs (element_fn dbg clk f) xs st)) key r"
    by (rule map_inputs_keeps [where P = "\<lambda>s. completed_with s key r"])
       (auto intro: element_fn_keeps assms(1))
  with m1 have c1: "completed_with st1 key r" by simp
  let ?st2 = "logMessage dbg (Note ''  using cached result for: '' (Some key)) st1"
  from element_fn_cached [OF c1 assms(2)] have el: "element_fn dbg clk f x st1 = (r, ?st2)" .
  obtain b st3 where m2: "map_inputs (element_fn dbg clk f) ys ?st2 = (b, st3)"
    by (cases "map_inputs (element_fn dbg clk f) ys ?st2")
  from m1 el m2 have "map_inputs (element_fn dbg clk f) (xs @ x # ys) st = (a @ r # b, st3)"
    by (simp add: map_inputs_append)
  with m1 m2 show ?thesis
    by (simp add: userInvocationTable_def filter_defined_append filter_defined_single
        filter_defined_append [of "[r]" b, simplified])
qed

lemma table_returns_stored_all:
  assumes "completed_with st key r" and "\<forall>x \<in> set inputs. registry_key f x = Some key"
  shows "fst (userInvocationTable dbg clk f inputs st) =
           (case r of None \<Rightarrow> [] | Some v \<Rightarrow> replicate (length inputs) v)"
proof -
  from assms have "fst (map_inputs (element_fn dbg clk f) inputs st) = replicate (length inputs) r"
  proof (induction inputs arbitrary: st)
    case Nil
    show ?case by simp
  next
    case (Cons x xs)
    let ?st1 = "logMessage dbg (Note ''  using cached result for: '' (Some key)) st"
    from Cons.prems have el: "element_fn dbg clk f x st = (r, ?st1)"
      by (simp add: element_fn_cached)
    from Cons.prems have "completed_with ?st1 key r" by simp
    from Cons.IH [OF this] Cons.prems(2) el show ?case by (auto split: prod.splits)
  qed
  then have "fst (userInvocationTable dbg clk f inputs st) =
      filter_defined (replicate (length inputs) r)"
    by (auto simp: userInvocationTable_def split: prod.splits)
  also have "\<dots> = (case r of None \<Rightarrow> [] | Some v \<Rightarrow> replicate (length inputs) v)"
    by (induction inputs) (simp_all add: filter_defined_def split: option.splits)
  finally show ?thesis .
qed

text \<open>
  C3. Once the record of a fingerprint is completed with a result, it stays completed
  with that result. The handler, for an element with that fingerprint, returns the
  stored result and leaves the map as it is: in the list the handler hands to the
  engine the stored value stands at the place of that element, between the answers
  for the elements before and after it (nothing stands there when the stored result
  is \<^verbatim>\<open>undefined\<close>), and a call whose elements all have that fingerprint returns
  the stored value once per element. The record stays as it is through every handler
  invocation, through a whole pass of the engine, through the resolve phase (which
  calls no adapter for it, whether the phase ends or fails) and through the rest of
  the loop, however it ends.
\<close>

theorem completed_record_is_stable:
  assumes "completed_with st key r"
  shows "(registry_key f x = Some key \<longrightarrow>
            fst (element_fn dbg clk f x st) = r \<and>
            asyncCallsRequired (snd (element_fn dbg clk f x st)) = asyncCallsRequired st) \<and>
         (registry_key f x = Some key \<longrightarrow>
            fst (userInvocationTable dbg clk f (xs @ x # ys) st) =
              fst (userInvocationTable dbg clk f xs st) @ (case r of None \<Rightarrow> [] | Some v \<Rightarrow> [v]) @
              fst (userInvocationTable dbg clk f ys
                     (logMessage dbg (Note ''  using cached result for: '' (Some key))
                        (snd (userInvocationTable dbg clk f xs st))))) \<and>
         ((\<forall>x \<in> set inputs. registry_key f x = Some key) \<longrightarrow>
            fst (userInvocationTable dbg clk f inputs st) =
              (case r of None \<Rightarrow> [] | Some v \<Rightarrow> replicate (length inputs) v)) \<and>
         completed_with (snd (userInvocationTable dbg clk f inputs st)) key r \<and>
         stable_from st key r (snd (fhirpath_evaluate (userInvocationTable dbg clk) e st)) \<and>
         key \<notin> set (pending_keys st) \<and>
         (resolve_phase h st = Inr st' \<or> resolve_phase h st = Inl (failure, st') \<longrightarrow>
            stable_from st key r st') \<and>
         (loop h e its res st = Inr fin \<longrightarrow> stable_from st key r (final fin)) \<and>
         (loop h e its res st = Inl (failure, st') \<longrightarrow> stable_from st key r st')"
proof -
  have "registry_key f x = Some key \<longrightarrow>
            fst (element_fn dbg clk f x st) = r \<and>
            asyncCallsRequired (snd (element_fn dbg clk f x st)) = asyncCallsRequired st"
    using element_fn_cached [OF assms] by simp
  moreover have "resolve_phase h st = Inr st' \<or> resolve_phase h st = Inl (failure, st') \<longrightarrow>
            stable_from st key r st'"
    using resolve_phase_keeps [OF assms] by (auto simp: stable_from_def)
  moreover have "registry_key f x = Some key \<longrightarrow>
            fst (userInvocationTable dbg clk f (xs @ x # ys) st) =
              fst (userInvocationTable dbg clk f xs st) @ (case r of None \<Rightarrow> [] | Some v \<Rightarrow> [v]) @
              fst (userInvocationTable dbg clk f ys
                     (logMessage dbg (Note ''  using cached result for: '' (Some key))
                        (snd (userInvocationTable dbg clk f xs st))))"
    using table_returns_stored [OF assms] by blast
  moreover have "(\<forall>x \<in> set inputs. registry_key f x = Some key) \<longrightarrow>
            fst (userInvocationTable dbg clk f inputs st) =
              (case r of None \<Rightarrow> [] | Some v \<Rightarrow> replicate (length inputs) v)"
    using table_returns_stored_all [OF assms] by blast
  ultimately show ?thesis
    using table_keeps [OF assms] pass_keeps [OF assms] completed_not_pending [OF assms]
      loop_keeps [OF assms] by blast
qed

theorem completed_record_is_stable_witness:
  "completed_with vs1_resolved ''MemberOf:SYS|M - VS1'' (Some (VBool True)) \<and>
   registry_key (MemberOf ''VS1'') sys_m = Some ''MemberOf:SYS|M - VS1'' \<and>
   fst (element_fn True plain_clock (MemberOf ''VS1'') sys_m vs1_resolved) = Some (VBool True) \<and>
   fst (userInvocationTable True plain_clock (MemberOf ''VS1'') [text_only, sys_m] vs1_resolved) =
     [VBool True] \<and>
   fst (userInvocationTable True plain_clock (MemberOf ''VS1'') [sys_m, sys_m] vs1_resolved) =
     [VBool True, VBool True] \<and>
   ''MemberOf:SYS|M - VS1'' \<notin> set (pending_keys vs1_resolved) \<and>
   (\<exists>fin. loop vs1_host memberOf_VS1_on_coding 1 [] vs1_resolved = Inr fin \<and>
      stable_from vs1_resolved ''MemberOf:SYS|M - VS1'' (Some (VBool True)) (final fin))"
proof -
  have c: "completed_with vs1_resolved ''MemberOf:SYS|M - VS1'' (Some (VBool True))"
    by (simp add: completed_with_def vs1_resolved_def)
  have k: "registry_key (MemberOf ''VS1'') sys_m = Some ''MemberOf:SYS|M - VS1''"
    by (simp add: sys_m_def coding_key_def js_string_def truthy_def)
  have t: "fst (userInvocationTable True plain_clock (MemberOf ''VS1'') [text_only] vs1_resolved) = []"
    by (simp add: userInvocationTable_def memberOf_element_def text_only_def truthy_def
        filter_defined_def)
  have u: "fst (userInvocationTable True plain_clock (MemberOf ''VS1'') [text_only, sys_m] vs1_resolved) =
      [VBool True]"
    "fst (userInvocationTable True plain_clock (MemberOf ''VS1'') [sys_m, sys_m] vs1_resolved) =
      [VBool True, VBool True]"
    by code_simp+
  have "\<exists>fin. loop vs1_host memberOf_VS1_on_coding 1 [] vs1_resolved = Inr fin"
    by (simp add: loop.simps scenario_defs vs1_resolved_def vs1_host_def)
  then obtain fin where l: "loop vs1_host memberOf_VS1_on_coding 1 [] vs1_resolved = Inr fin" ..
  from completed_record_is_stable
    [where f = "MemberOf ''VS1''" and x = sys_m and dbg = True and clk = plain_clock
       and xs = "[text_only]" and ys = "[]" and inputs = "[sys_m, sys_m]"
       and h = vs1_host and e = memberOf_VS1_on_coding and its = 1 and res = "[]" and fin = fin, OF c]
    c k l t u
  show ?thesis by (auto simp: table_nil)
qed

section \<open>Failing adapters\<close>




lemma list_all_update:
  "list_all P al \<Longrightarrow> P (k, v) \<Longrightarrow> list_all P (AList.update k v al)"
  by (induction al) auto



















section \<open>References that resolve to nothing\<close>

lemmas resolve_defs =
  do_body_def resolve_phase_def initial_state_def logMessage_def userInvocationTable_def
  resolve_element_def lookup_or_register_def register_call_def get_evaluationCompleted_def
  get_result_def js_string_def truthy_def filter_defined_def
  pending_keys_def start_call_def run_adapter_def resolveAsync_def 

lemmas resolve_0_defs =
  do_body_0_def fhirpath_evaluate_0_def resolve_phase_0_def initial_state_def logMessage_def
  userInvocationTable_0_def resolve_element_def lookup_or_register_def register_call_def
  get_evaluationCompleted_def get_result_def js_string_def truthy_def resolve_key_0_def
  start_call_def run_adapter_0_def resolveAsync_0_def filter_defined_def

lemma stub_resolves_to_nothing:
  assumes "url \<noteq> []" and "url \<noteq> ''http://hl7.org/fhir/ValueSet/observation-vitalsignresult''"
  shows "\<exists>fin. run_0 debug (resolve_one_0 url) = Inr fin \<and> results fin = [] \<and>
           iterations fin = 2 \<and> \<not> requiresAsyncProcessing (final fin) \<and>
           completed_with (final fin) (''Resolve:'' @ url) None \<and>
           requested (final fin) = [''Resolve:'' @ url] \<and>
           fst (userInvocationTable_0 debug Resolve_0 [VString url] (final fin)) = [None]"
  using assms
  by (simp add: run_0_def loop_0.simps resolve_0_defs resolve_one_0_def completed_with_def)

lemma network_resolve_rejected:
  assumes "url \<noteq> []" and "fetch_json h url = Rejected message"
  shows "\<exists>st. run h (resolve_one url) =
               Inl (CreateOperationOutcome ''error'' ''exception''
                      (''Failed to resolve reference: '' @ url) (Some message), st) \<and>
             completed_with st (''Resolve:'' @ url) None"
  using assms
  by (simp add: run_def loop.simps resolve_defs resolve_one_def completed_with_def)

lemma network_resolve_responded:
  assumes "url \<noteq> []" and "fetch_json h url = Responded doc"
  shows "\<exists>fin. run h (resolve_one url) = Inr fin \<and> results fin = [VResource doc] \<and>
           iterations fin = 2 \<and> \<not> requiresAsyncProcessing (final fin) \<and>
           completed_with (final fin) (''Resolve:'' @ url) (Some (VResource doc))"
  using assms
  by (simp add: run_def loop.simps resolve_defs resolve_one_def completed_with_def)

lemma network_resolve_never_empty:
  assumes "url \<noteq> []"
  shows "evaluateFhirpathAsync h (resolve_one url) \<noteq> Inr []"
proof (cases "fetch_json h url")
  case (Rejected message)
  from network_resolve_rejected [OF assms this] show ?thesis
    by (auto simp: evaluateFhirpathAsync_def)
next
  case (Responded doc)
  from network_resolve_responded [OF assms this] show ?thesis
    by (auto simp: evaluateFhirpathAsync_def)
qed

text \<open>
  C8 (amended). With the stub adapter of the earlier driver, a reference other than the
  one it knows is resolved to nothing rather than failing: the record is completed
  without a result, the handler has \<^verbatim>\<open>undefined\<close> for the element, the final
  result list holds no value, and the loop ends after two passes asking for no more.
  The adapter that fetches has no such answer. Whatever document the server sends back
  becomes the value of the element, and the run is complete after two passes; a
  rejected fetch or decoding marks the record completed without a result and ends the
  whole evaluation with the outcome \<^verbatim>\<open>Failed to resolve reference\<close>. So with that
  adapter no evaluation of \<^verbatim>\<open>resolve()\<close> on a reference ends with an empty list.
\<close>

theorem unknown_reference:
  "(url \<noteq> [] \<and> url \<noteq> ''http://hl7.org/fhir/ValueSet/observation-vitalsignresult'' \<longrightarrow>
      (\<exists>fin. run_0 debug (resolve_one_0 url) = Inr fin \<and> results fin = [] \<and>
         iterations fin = 2 \<and> \<not> requiresAsyncProcessing (final fin) \<and>
         completed_with (final fin) (''Resolve:'' @ url) None \<and>
         requested (final fin) = [''Resolve:'' @ url] \<and>
         fst (userInvocationTable_0 debug Resolve_0 [VString url] (final fin)) = [None]) \<and>
      evaluateFhirpathAsync_0 debug (resolve_one_0 url) = Inr []) \<and>
   (url \<noteq> [] \<and> fetch_json h url = Rejected message \<longrightarrow>
      (\<exists>st. run h (resolve_one url) =
              Inl (CreateOperationOutcome ''error'' ''exception''
                     (''Failed to resolve reference: '' @ url) (Some message), st) \<and>
            completed_with st (''Resolve:'' @ url) None) \<and>
      evaluateFhirpathAsync h (resolve_one url) =
        Inl (CreateOperationOutcome ''error'' ''exception''
               (''Failed to resolve reference: '' @ url) (Some message))) \<and>
   (url \<noteq> [] \<and> fetch_json h url = Responded doc \<longrightarrow>
      (\<exists>fin. run h (resolve_one url) = Inr fin \<and> results fin = [VResource doc] \<and>
         iterations fin = 2 \<and> \<not> requiresAsyncProcessing (final fin) \<and>
         completed_with (final fin) (''Resolve:'' @ url) (Some (VResource doc))) \<and>
      evaluateFhirpathAsync h (resolve_one url) = Inr [VResource doc]) \<and>
   (url \<noteq> [] \<longrightarrow> evaluateFhirpathAsync h (resolve_one url) \<noteq> Inr [])"
proof -
  have "url \<noteq> [] \<and> url \<noteq> ''http://hl7.org/fhir/ValueSet/observation-vitalsignresult'' \<longrightarrow>
      (\<exists>fin. run_0 debug (resolve_one_0 url) = Inr fin \<and> results fin = [] \<and>
         iterations fin = 2 \<and> \<not> requiresAsyncProcessing (final fin) \<and>
         completed_with (final fin) (''Resolve:'' @ url) None \<and>
         requested (final fin) = [''Resolve:'' @ url] \<and>
         fst (userInvocationTable_0 debug Resolve_0 [VString url] (final fin)) = [None]) \<and>
      evaluateFhirpathAsync_0 debug (resolve_one_0 url) = Inr []"
    using stub_resolves_to_nothing [of url debug] by (auto simp: evaluateFhirpathAsync_0_def)
  moreover have "url \<noteq> [] \<and> fetch_json h url = Rejected message \<longrightarrow>
      (\<exists>st. run h (resolve_one url) =
              Inl (CreateOperationOutcome ''error'' ''exception''
                     (''Failed to resolve reference: '' @ url) (Some message), st) \<and>
            completed_with st (''Resolve:'' @ url) None) \<and>
      evaluateFhirpathAsync h (resolve_one url) =
        Inl (CreateOperationOutcome ''error'' ''exception''
               (''Failed to resolve reference: '' @ url) (Some message))"
    using network_resolve_rejected [of url h message] by (auto simp: evaluateFhirpathAsync_def)
  moreover have "url \<noteq> [] \<and> fetch_json h url = Responded doc \<longrightarrow>
      (\<exists>fin. run h (resolve_one url) = Inr fin \<and> results fin = [VResource doc] \<and>
         iterations fin = 2 \<and> \<not> requiresAsyncProcessing (final fin) \<and>
         completed_with (final fin) (''Resolve:'' @ url) (Some (VResource doc))) \<and>
      evaluateFhirpathAsync h (resolve_one url) = Inr [VResource doc]"
    using network_resolve_responded [of url h doc] by (auto simp: evaluateFhirpathAsync_def)
  ultimately show ?thesis using network_resolve_never_empty [of url h] by blast
qed

theorem unknown_reference_witness:
  "(\<exists>fin. run_0 True (resolve_one_0 ''http://example/Organization/1'') = Inr fin \<and>
      results fin = [] \<and> iterations fin = 2 \<and> \<not> requiresAsyncProcessing (final fin) \<and>
      completed_with (final fin) ''Resolve:http://example/Organization/1'' None) \<and>
   evaluateFhirpathAsync_0 True (resolve_one_0 ''http://example/Organization/1'') = Inr [] \<and>
   fetch_json offline_host ''http://example/Organization/1'' = Rejected ''Failed to fetch'' \<and>
   (\<exists>st. run offline_host (resolve_one ''http://example/Organization/1'') =
           Inl (CreateOperationOutcome ''error'' ''exception''
                  ''Failed to resolve reference: http://example/Organization/1''
                  (Some ''Failed to fetch''), st) \<and>
         completed_with st ''Resolve:http://example/Organization/1'' None) \<and>
   fetch_json echo_host ''http://example/Organization/1'' =
     Responded \<lparr>parameter = None, issue = None, content = ''http://example/Organization/1''\<rparr> \<and>
   evaluateFhirpathAsync echo_host (resolve_one ''http://example/Organization/1'') =
     Inr [VResource \<lparr>parameter = None, issue = None, content = ''http://example/Organization/1''\<rparr>]"
proof -
  have a: "fetch_json offline_host ''http://example/Organization/1'' = Rejected ''Failed to fetch''"
    by (simp add: offline_host_def)
  have b: "fetch_json echo_host ''http://example/Organization/1'' =
     Responded \<lparr>parameter = None, issue = None, content = ''http://example/Organization/1''\<rparr>"
    by (simp add: echo_host_def)
  from unknown_reference
    [where url = "''http://example/Organization/1''" and debug = True and h = echo_host
       and doc = "\<lparr>parameter = None, issue = None, content = ''http://example/Organization/1''\<rparr>"]
    unknown_reference
    [where url = "''http://example/Organization/1''" and h = offline_host
       and message = "''Failed to fetch''"]
    a b
  show ?thesis by auto
qed

text \<open>
  C8 as stated fails on the adapter that fetches. A server that does not know the
  reference \<^verbatim>\<open>http://example/Organization/1\<close> answers with its error document, and
  that document is the value of the element in the final list; with no network the
  evaluation fails. Neither run ends with a list that holds no value.
\<close>

theorem fetched_reference_is_never_absent:
  "evaluateFhirpathAsync not_found_host (resolve_one ''http://example/Organization/1'') =
     Inr [VResource not_found_document] \<and>
   passes (run not_found_host (resolve_one ''http://example/Organization/1'')) = Some 2 \<and>
   \<not> still_incomplete (run not_found_host (resolve_one ''http://example/Organization/1'')) \<and>
   evaluateFhirpathAsync offline_host (resolve_one ''http://example/Organization/1'') =
     Inl (CreateOperationOutcome ''error'' ''exception''
            ''Failed to resolve reference: http://example/Organization/1'' (Some ''Failed to fetch''))"
proof -
  have "summary (run not_found_host (resolve_one ''http://example/Organization/1'')) =
      (Some 2, False, [''Resolve:http://example/Organization/1''],
       Inr [VResource not_found_document])"
    by code_simp
  moreover have "outcome_of (run offline_host (resolve_one ''http://example/Organization/1'')) =
     Inl (CreateOperationOutcome ''error'' ''exception''
            ''Failed to resolve reference: http://example/Organization/1'' (Some ''Failed to fetch''))"
    by code_simp
  ultimately show ?thesis
    using outcome_of_run [of not_found_host "resolve_one ''http://example/Organization/1''"]
      outcome_of_run [of offline_host "resolve_one ''http://example/Organization/1''"]
    by (simp add: summary_def)
qed

section \<open>Elements without a fingerprint\<close>

text \<open>
  C6, on the first version of the handler. A CodeableConcept that carries only text has
  no fingerprint: \<^verbatim>\<open>createIndexKey\<close> returns the empty string. The handler files it
  under the key \<^verbatim>\<open> - VS1\<close> as pending and asks for another pass; once the resolve
  loop has run, the same element is answered \<^verbatim>\<open>true\<close>.
\<close>

theorem malformed_element_is_queued:
  "createIndexKey text_only = Inr [] \<and>
   memberOf_1 ''VS1'' [text_only] initial_state_1 =
     Inr ([None], \<lparr>memberOfCallsRequired = [('' - VS1'', None)], requiresAsyncProcessing_1 = True\<rparr>) \<and>
   memberOf_1 ''VS1'' [text_only]
     (resolve_phase_1 \<lparr>memberOfCallsRequired = [('' - VS1'', None)], requiresAsyncProcessing_1 = True\<rparr>) =
     Inr ([Some True],
          \<lparr>memberOfCallsRequired = [('' - VS1'', Some True)], requiresAsyncProcessing_1 = False\<rparr>)"
  by (simp add: text_only_def initial_state_1_def memberOf_element_1_def resolve_phase_1_def)

text \<open>
  The later versions test the key. An element without a fingerprint gets no answer and
  changes nothing, and a call on several elements treats them one after the other, each
  from the state its predecessors left.
\<close>

theorem elements_are_independent:
  "(f \<noteq> ToAge \<and> registry_key f x = None \<longrightarrow> element_fn dbg clk f x st = (None, st)) \<and>
   (f \<noteq> ToAge \<and> registry_key f x = None \<longrightarrow>
      userInvocationTable dbg clk f (xs @ x # ys) st =
        (case userInvocationTable dbg clk f xs st of (a, st1) \<Rightarrow>
           case userInvocationTable dbg clk f ys st1 of (b, st2) \<Rightarrow> (a @ b, st2)))"
proof -
  have el: "f \<noteq> ToAge \<and> registry_key f x = None \<longrightarrow> element_fn dbg clk f x st1 = (None, st1)" for st1
    by (cases f) (simp_all add: resolve_element_def memberOf_element_def Let_def)
  have "f \<noteq> ToAge \<and> registry_key f x = None \<longrightarrow>
      userInvocationTable dbg clk f (xs @ x # ys) st =
        (case userInvocationTable dbg clk f xs st of (a, st1) \<Rightarrow>
           case userInvocationTable dbg clk f ys st1 of (b, st2) \<Rightarrow> (a @ b, st2))"
    using el
    by (auto simp: userInvocationTable_def map_inputs_append filter_defined_def split: prod.splits)
  with el show ?thesis by blast
qed

theorem elements_are_independent_witness:
  "registry_key (MemberOf ''VS1'') text_only = None \<and>
   userInvocationTable True plain_clock (MemberOf ''VS1'') [sys_m, text_only, sys_m] vs1_resolved =
     (case userInvocationTable True plain_clock (MemberOf ''VS1'') [sys_m] vs1_resolved of
        (a, st1) \<Rightarrow>
          case userInvocationTable True plain_clock (MemberOf ''VS1'') [sys_m] st1 of
            (b, st2) \<Rightarrow> (a @ b, st2))"
proof -
  have k: "registry_key (MemberOf ''VS1'') text_only = None"
    by (simp add: text_only_def truthy_def)
  from elements_are_independent
    [where f = "MemberOf ''VS1''" and x = text_only and xs = "[sys_m]" and ys = "[sys_m]"
       and dbg = True and clk = plain_clock and st = vs1_resolved] k
  show ?thesis by simp
qed

section \<open>A membership answer without a result\<close>

text \<open>
  C2, at an input where it fails. The terminology server answers with a Parameters
  resource that has no \<^verbatim>\<open>result\<close> parameter and no issues. \<^verbatim>\<open>memberOfAsync\<close>
  then neither completes the record nor throws, so the two call sites find the record
  pending in every pass and the driver calls the adapter again in every resolve phase:
  nine calls for the one fingerprint, ten passes, and the empty list as result.
\<close>

theorem same_call_resolved_nine_times:
  "summary (run mute_host twice_memberOf) =
     (Some 10, True, replicate 9 ''MemberOf:SYS|M - VS1'', Inr [])"
  by code_simp

text \<open>
  C9, at an input where it fails: one call site, the same server. The adapter is
  called for the same fingerprint in each of the nine resolve phases.
\<close>

theorem fingerprint_requested_again:
  "requests (run mute_host memberOf_VS1_on_coding) = replicate 9 ''MemberOf:SYS|M - VS1'' \<and>
   count_list (requests (run mute_host memberOf_VS1_on_coding)) ''MemberOf:SYS|M - VS1'' = 9 \<and>
   evaluateFhirpathAsync mute_host memberOf_VS1_on_coding = Inr []"
proof -
  have "summary (run mute_host memberOf_VS1_on_coding) =
     (Some 10, True, replicate 9 ''MemberOf:SYS|M - VS1'', Inr [])"
    by code_simp
  then show ?thesis
    using outcome_of_run [of mute_host memberOf_VS1_on_coding]
    by (simp add: summary_def numeral_eq_Suc)
qed

section \<open>When every answer is recognised\<close>

lemma adapter_completes:
  assumes "answers_every_check h" and "resolvable d" and "run_adapter h d = (d1, err)"
  shows "evaluationCompleted d1 \<and> resolvable d1"
proof (cases "asyncFunction d")
  case ResolveAsync
  with assms(2,3) show ?thesis
    by (auto simp: run_adapter_def resolveAsync_def resolvable_def Let_def split: fetch_result.splits)
next
  case MemberOfAsync
  with assms(2) obtain req where req: "memberOf_request (val d) (valueSet d) = Some req"
    by (auto simp: resolvable_def)
  from assms(1) have "recognised (validate_code h req)" by (simp add: answers_every_check_def)
  with MemberOfAsync req assms(3) show ?thesis
    by (auto simp: run_adapter_def memberOfAsync_def resolvable_def recognised_def Let_def
        split: fetch_result.splits option.splits)
qed


lemma get_evaluationCompleted_frame:
  "asyncCallsRequired st' = asyncCallsRequired st \<Longrightarrow>
     get_evaluationCompleted st' = get_evaluationCompleted st"
  by (rule ext) (simp add: get_evaluationCompleted_def)

lemma orderly_frame:
  "asyncCallsRequired st' = asyncCallsRequired st \<Longrightarrow> requested st' = requested st \<Longrightarrow>
     orderly st' = orderly st"
  using get_evaluationCompleted_frame [of st' st] by (simp add: orderly_def)

lemma orderly_logMessage [simp]: "orderly (logMessage dbg x st) = orderly st"
  by (rule orderly_frame) simp_all

lemma get_evaluationCompleted_update:
  "get_evaluationCompleted (st\<lparr>asyncCallsRequired := AList.update k d (asyncCallsRequired st)\<rparr>) k' =
     (if k' = k then evaluationCompleted d else get_evaluationCompleted st k')"
  by (simp add: get_evaluationCompleted_def update_conv')

lemma lookup_or_register_orderly:
  assumes "orderly st" and "resolvable d"
  shows "orderly (snd (lookup_or_register dbg k d st))"
proof (cases "get_evaluationCompleted st k")
  case True
  with assms show ?thesis by (simp add: lookup_or_register_def)
next
  case False
  let ?st1 = "st\<lparr>asyncCallsRequired := AList.update k d (asyncCallsRequired st)\<rparr>"
  from assms(1) False have "list_all (get_evaluationCompleted ?st1) (requested st)"
    by (auto simp: orderly_def list_all_iff get_evaluationCompleted_update)
  with assms have "orderly ?st1"
    by (simp add: orderly_def distinct_update list_all_update)
  moreover have "orderly (snd (lookup_or_register dbg k d st)) = orderly ?st1"
    using False by (intro orderly_frame) (simp_all add: lookup_or_register_def register_call_def)
  ultimately show ?thesis by simp
qed

lemma fingerprint_has_request:
  "truthy (createIndexKeyMemberOf x vs) \<Longrightarrow> memberOf_request x (Some vs) \<noteq> None"
  by (cases "(x, vs)" rule: createIndexKeyMemberOf.cases) (auto simp: truthy_def split: if_splits)

lemma element_fn_orderly:
  assumes "orderly st"
  shows "orderly (snd (element_fn dbg clk f x st))"
proof (cases f)
  case ToAge
  with assms show ?thesis by (simp add: toAge_element_def Let_def)
next
  case Resolve
  with assms show ?thesis
    by (simp add: resolve_element_def Let_def lookup_or_register_orderly resolvable_def)
next
  case (MemberOf vs)
  with assms show ?thesis
    by (simp add: memberOf_element_def Let_def lookup_or_register_orderly resolvable_def
        fingerprint_has_request)
qed

lemma table_orderly:
  assumes "orderly st"
  shows "orderly (snd (userInvocationTable dbg clk f inputs st))"
proof -
  have "orderly (snd (map_inputs (element_fn dbg clk f) inputs st))"
    by (rule map_inputs_keeps [where P = orderly]) (auto intro: element_fn_orderly assms)
  then show ?thesis by (auto simp: userInvocationTable_def split: prod.splits)
qed

lemma write_record_filed:
  assumes "answers_every_check h" and "filed st"
  shows "filed (write_record h st k) \<and>
         map fst (asyncCallsRequired (write_record h st k)) = map fst (asyncCallsRequired st)"
proof (cases "map_of (asyncCallsRequired st) k")
  case None
  with assms show ?thesis by (simp add: write_record_def)
next
  case (Some d)
  then have mem: "(k, d) \<in> set (asyncCallsRequired st)" by (rule map_of_SomeD)
  with assms(2) have rd: "resolvable d" by (auto simp: filed_def list_all_iff)
  obtain d1 err where ra: "run_adapter h d = (d1, err)" by (cases "run_adapter h d")
  from adapter_completes [OF assms(1) rd ra] have d1: "resolvable d1" by simp
  from mem have "k \<in> fst ` set (asyncCallsRequired st)" by force
  with assms(2) d1 Some ra show ?thesis
    by (simp add: write_record_def filed_def list_all_update distinct_update update_keys)
qed

lemma settle_completes:
  assumes "answers_every_check h" and "filed st"
    and "settle h keys st = Inr st' \<or> settle h keys st = Inl (failure, st')"
  shows "filed st' \<and> requested st' = requested st \<and>
         map fst (asyncCallsRequired st') = map fst (asyncCallsRequired st) \<and>
         (\<forall>k. get_evaluationCompleted st k \<longrightarrow> get_evaluationCompleted st' k) \<and>
         (settle h keys st = Inr st' \<longrightarrow>
            (\<forall>k \<in> set keys. k \<in> set (map fst (asyncCallsRequired st)) \<longrightarrow>
               get_evaluationCompleted st' k))"
  using assms(2,3)
proof (induction keys arbitrary: st)
  case Nil
  then show ?case by auto
next
  case (Cons k ks)
  show ?case
  proof (cases "map_of (asyncCallsRequired st) k")
    case None
    then have notin: "k \<notin> set (map fst (asyncCallsRequired st))"
      by (simp add: map_of_eq_None_iff)
    from None Cons.prems(2)
    have s: "settle h ks st = Inr st' \<or> settle h ks st = Inl (failure, st')" by simp
    from Cons.IH [OF Cons.prems(1) s] None notin show ?thesis by auto
  next
    case (Some d)
    then have mem: "(k, d) \<in> set (asyncCallsRequired st)" by (rule map_of_SomeD)
    with Cons.prems(1) have rd: "resolvable d" by (auto simp: filed_def list_all_iff)
    obtain d1 err where ra: "run_adapter h d = (d1, err)" by (cases "run_adapter h d")
    from adapter_completes [OF assms(1) rd ra] have d1: "evaluationCompleted d1" "resolvable d1"
      by simp_all
    let ?st1 = "st\<lparr>asyncCallsRequired := AList.update k d1 (asyncCallsRequired st)\<rparr>"
    from mem have kin: "k \<in> fst ` set (asyncCallsRequired st)" by force
    then have keys1: "map fst (asyncCallsRequired ?st1) = map fst (asyncCallsRequired st)"
      by (simp add: update_keys)
    from Cons.prems(1) d1 have f1: "filed ?st1"
      by (simp add: filed_def list_all_update distinct_update)
    have up: "\<forall>k'. get_evaluationCompleted st k' \<longrightarrow> get_evaluationCompleted ?st1 k'"
      using d1 by (simp add: get_evaluationCompleted_update)
    have kc: "get_evaluationCompleted ?st1 k" using d1 by (simp add: get_evaluationCompleted_update)
    show ?thesis
    proof (cases err)
      case None
      with Cons.prems(2) Some ra
      have s: "settle h ks ?st1 = Inr st' \<or> settle h ks ?st1 = Inl (failure, st')"
        and eq: "settle h (k # ks) st = settle h ks ?st1" by simp_all
      from Cons.IH [OF f1 s]
      have i1: "filed st'" and i2: "requested st' = requested ?st1"
        and i3: "map fst (asyncCallsRequired st') = map fst (asyncCallsRequired ?st1)"
        and i4: "\<And>k'. get_evaluationCompleted ?st1 k' \<Longrightarrow> get_evaluationCompleted st' k'"
        and i5: "\<And>k'. settle h ks ?st1 = Inr st' \<Longrightarrow> k' \<in> set ks \<Longrightarrow>
              k' \<in> set (map fst (asyncCallsRequired ?st1)) \<Longrightarrow> get_evaluationCompleted st' k'"
        by blast+
      have c2: "requested st' = requested st" using i2 by simp
      have c3: "map fst (asyncCallsRequired st') = map fst (asyncCallsRequired st)"
        using i3 keys1 by simp
      have c4: "\<forall>k'. get_evaluationCompleted st k' \<longrightarrow> get_evaluationCompleted st' k'"
        using up i4 by blast
      have c5: "settle h (k # ks) st = Inr st' \<longrightarrow>
            (\<forall>k' \<in> set (k # ks). k' \<in> set (map fst (asyncCallsRequired st)) \<longrightarrow>
               get_evaluationCompleted st' k')"
      proof (intro impI ballI)
        fix k'
        assume a: "settle h (k # ks) st = Inr st'" and b: "k' \<in> set (k # ks)"
          and c: "k' \<in> set (map fst (asyncCallsRequired st))"
        from a eq have a': "settle h ks ?st1 = Inr st'" by simp
        show "get_evaluationCompleted st' k'"
        proof (cases "k' = k")
          case True
          with kc i4 show ?thesis by blast
        next
          case False
          with b have "k' \<in> set ks" by simp
          moreover from c keys1 have "k' \<in> set (map fst (asyncCallsRequired ?st1))" by simp
          ultimately show ?thesis using i5 [OF a'] by blast
        qed
      qed
      from i1 c2 c3 c4 c5 show ?thesis by blast
    next
      case (Some e)
      let ?turn = "takeWhile (\<lambda>k'. latency h k' = latency h k) ks"
      let ?P = "\<lambda>s. filed s \<and> requested s = requested st \<and>
                  map fst (asyncCallsRequired s) = map fst (asyncCallsRequired st) \<and>
                  (\<forall>k'. get_evaluationCompleted st k' \<longrightarrow> get_evaluationCompleted s k')"
      from Some Cons.prems(2) \<open>map_of (asyncCallsRequired st) k = Some d\<close> ra
      have st': "st' = foldl (write_record h) ?st1 ?turn"
        and no: "settle h (k # ks) st \<noteq> Inr st'" by auto
      have step: "\<And>s k'. ?P s \<Longrightarrow> ?P (write_record h s k')"
        using write_record_filed [OF assms(1)] write_record_completed by auto
      from f1 keys1 up have "?P ?st1" by simp
      from write_records_keeps [where P = ?P, OF step this] st' no show ?thesis by simp
    qed
  qed
qed

lemma resolve_phase_orderly:
  assumes "answers_every_check h" and "orderly st"
  shows "(resolve_phase h st = Inr st' \<longrightarrow> orderly st') \<and>
         (resolve_phase h st = Inl (failure, st') \<longrightarrow> distinct (requested st'))"
proof (cases "asyncCallsRequired st = []")
  case True
  with assms show ?thesis by (auto simp: resolve_phase_def)
next
  case False
  let ?keys = "pending_keys st"
  let ?st1 = "foldl (start_call (debugAsyncFhirpath h)) st ?keys"
  from assms(2) have f1: "filed ?st1" by (simp add: filed_def orderly_def)
  have pk: "distinct ?keys" "set ?keys \<subseteq> set (map fst (asyncCallsRequired st))"
    "\<forall>k \<in> set ?keys. \<not> get_evaluationCompleted st k"
    using assms(2)
    by (auto simp: pending_keys_def orderly_def get_evaluationCompleted_def split: option.splits)
  from assms(2) pk have dr: "distinct (requested st @ ?keys)"
    by (auto simp: orderly_def list_all_iff)
  have same: "get_evaluationCompleted ?st1 = get_evaluationCompleted st"
    by (rule ext) (simp add: get_evaluationCompleted_def)
  show ?thesis
  proof (intro conjI impI)
    assume r: "resolve_phase h st = Inr st'"
    with False obtain st2 where
      s: "settle h (sort_key (latency h) ?keys) ?st1 = Inr st2"
      and st': "st' = st2\<lparr>requiresAsyncProcessing := False\<rparr>"
      by (auto simp: resolve_phase_def Let_def split: sum.splits)
    from settle_completes [OF assms(1) f1, of "sort_key (latency h) ?keys" st2] s
    have f2: "filed st2" and rq: "requested st2 = requested st @ ?keys"
      and up: "\<forall>k. get_evaluationCompleted st k \<longrightarrow> get_evaluationCompleted st2 k"
      and alld: "\<forall>k \<in> set ?keys. get_evaluationCompleted st2 k"
      using pk(2) by (auto simp: same)
    from assms(2) up alld have "list_all (get_evaluationCompleted st2) (requested st @ ?keys)"
      by (auto simp: orderly_def list_all_iff)
    with f2 rq dr have "orderly st2" by (simp add: orderly_def filed_def)
    moreover have "orderly st' = orderly st2" using st' by (intro orderly_frame) simp_all
    ultimately show "orderly st'" by simp
  next
    assume r: "resolve_phase h st = Inl (failure, st')"
    with False have s: "settle h (sort_key (latency h) ?keys) ?st1 = Inl (failure, st')"
      by (auto simp: resolve_phase_def Let_def split: sum.splits)
    from settle_completes [OF assms(1) f1, of "sort_key (latency h) ?keys" st' failure] s
    have "requested st' = requested st @ ?keys" by simp
    with dr show "distinct (requested st')" by simp
  qed
qed


lemma do_body_orderly:
  assumes "answers_every_check h" and "orderly st"
  shows "(do_body h e its res st = Inr (res1, st') \<longrightarrow> orderly st') \<and>
         (do_body h e its res st = Inl (failure, st') \<longrightarrow> distinct (requested st'))"
proof (cases "resolve_phase h st")
  case (Inl p)
  then have "do_body h e its res st = Inl p" by (simp add: do_body_def)
  with Inl resolve_phase_orderly [OF assms, of st' failure] show ?thesis by auto
next
  case (Inr st1)
  with resolve_phase_orderly [OF assms, of st1] have o1: "orderly st1" by simp
  let ?st1 = "logMessage (debugAsyncFhirpath h) (Count ''performing iteration: '' its) st1"
  let ?p = "fhirpath_evaluate (userInvocationTable (debugAsyncFhirpath h) (host_clock h)) e ?st1"
  from o1 have "orderly ?st1" by simp
  then have o2: "orderly (snd ?p)"
    by (intro evaluate_keeps [where P = orderly]) (simp_all add: table_orderly)
  have "do_body h e its res st = Inr (res1, st') \<or> do_body h e its res st = Inl (failure, st')
          \<longrightarrow> st' = snd ?p"
    using Inr by (auto simp: do_body_def split: prod.splits sum.splits if_splits)
  with o2 show ?thesis by (auto simp: orderly_def)
qed

lemma loop_orderly:
  assumes "answers_every_check h" and "orderly st"
  shows "(loop h e its res st = Inr fin \<longrightarrow> distinct (requested (final fin))) \<and>
         (loop h e its res st = Inl (failure, st') \<longrightarrow> distinct (requested st'))"
  using assms
proof (induction h e its res st rule: loop.induct)
  case (1 h e its res st)
  note a = "1.prems"(1) and o = "1.prems"(2)
  show ?case
  proof (cases "do_body h e (Suc its) res st")
    case (Inl p)
    note l = loop_failure [OF Inl]
    show ?thesis
    proof (cases "p = (failure, st')")
      case True
      with Inl do_body_orderly [OF a o, of e "Suc its" res _ st' failure] l
      show ?thesis by auto
    next
      case False
      with l show ?thesis by auto
    qed
  next
    case (Inr p)
    obtain res1 st1 where p: "p = (res1, st1)" by (cases p)
    with Inr have body: "do_body h e (Suc its) res st = Inr (res1, st1)" by simp
    with do_body_orderly [OF a o, of e "Suc its" res res1 st1]
    have o1: "orderly st1" by simp
    show ?thesis
    proof (cases "requiresAsyncProcessing st1 \<and> Suc its < 10")
      case True
      from "1.IH" [OF Inr p [symmetric] True a o1] loop_step(1) [OF body True]
      show ?thesis by simp
    next
      case False
      with o1 loop_step(2) [OF body False] show ?thesis by (auto simp: orderly_def)
    qed
  qed
qed

lemma orderly_initial: "orderly initial_state"
  by (simp add: orderly_def initial_state_def)

text \<open>
  Against a server whose every answer is of a kind \<^verbatim>\<open>memberOfAsync\<close> knows, no
  fingerprint is handed to an adapter twice in one evaluation, however the run ends.
\<close>

theorem each_fingerprint_requested_once:
  assumes "answers_every_check h"
  shows "distinct (requests (run h e))"
proof (cases "loop h e 0 [] initial_state")
  case (Inl p)
  obtain failure st' where "p = (failure, st')" by (cases p)
  with Inl loop_orderly [OF assms orderly_initial, of e 0 "[]" _ failure st'] show ?thesis
    by (simp add: run_def requests_def)
next
  case (Inr fin)
  with loop_orderly [OF assms orderly_initial, of e 0 "[]" fin] show ?thesis
    by (simp add: run_def requests_def)
qed

theorem each_fingerprint_requested_once_example:
  "answers_every_check vs1_host \<and> \<not> answers_every_check mute_host \<and>
   distinct (requests (run vs1_host twice_memberOf))"
proof -
  have a: "answers_every_check vs1_host"
    by (simp add: answers_every_check_def vs1_host_def recognised_def member_result_def)
  have "\<not> answers_every_check mute_host"
    by (simp add: answers_every_check_def mute_host_def recognised_def)
  with a each_fingerprint_requested_once [OF a, of twice_memberOf] show ?thesis by simp
qed

section \<open>\<^verbatim>\<open>toAge\<close>\<close>

lemma digit_roundtrip:
  assumes "is_digit c"
  shows "digit_value c < 10" and "digit_char (digit_value c) = c"
  using assms by (auto simp: is_digit_def digit_value_def digit_char_def)

lemma digit_char_inverse:
  assumes "n < 10"
  shows "digit_value (digit_char n) = n"
proof -
  from assms have "n \<in> {0, 1, 2, 3, 4, 5, 6, 7, 8, 9}" by auto
  then show ?thesis by (auto simp: digit_value_def digit_char_def)
qed

lemma last_digit:
  fixes a b :: nat
  assumes "b < 10"
  shows "(10 * a + b) div 10 = a" and "(10 * a + b) mod 10 = b"
  using assms by simp_all

lemma pad2_digits:
  assumes "a < 10" and "b < 10"
  shows "pad2 (10 * a + b) = [digit_char a, digit_char b]"
  using assms by (simp add: pad2_def last_digit)

lemma pad4_digits:
  assumes "a < 10" and "b < 10" and "c < 10" and "d < 10"
  shows "pad4 (10 * (10 * (10 * a + b) + c) + d) = [digit_char a, digit_char b, digit_char c, digit_char d]"
proof -
  let ?n = "10 * (10 * (10 * a + b) + c) + d"
  have h: "?n div 100 = ?n div 10 div 10" "?n div 1000 = ?n div 10 div 10 div 10"
    by (simp_all only: div_mult2_eq [symmetric]) simp_all
  from assms show ?thesis
    unfolding pad4_def h by (simp only: last_digit mod_less)
qed

lemma pad2_inj:
  assumes "pad2 m = pad2 n" and "m < 100" and "n < 100"
  shows "m = n"
proof -
  from assms(1) have a: "digit_char (m div 10 mod 10) = digit_char (n div 10 mod 10)"
    and b: "digit_char (m mod 10) = digit_char (n mod 10)" by (simp_all add: pad2_def)
  have "m div 10 mod 10 = n div 10 mod 10"
    using arg_cong [OF a, of digit_value] by (simp add: digit_char_inverse)
  moreover from assms(2,3) have "m div 10 < 10" "n div 10 < 10" by simp_all
  ultimately have hi: "m div 10 = n div 10" by simp
  have lo: "m mod 10 = n mod 10"
    using arg_cong [OF b, of digit_value] by (simp add: digit_char_inverse)
  have "m = 10 * (m div 10) + m mod 10" "n = 10 * (n div 10) + n mod 10" by simp_all
  with hi lo show ?thesis by metis
qed

lemma ten_chars:
  assumes "length s = 10"
  obtains c0 c1 c2 c3 c4 c5 c6 c7 c8 c9 where "s = [c0, c1, c2, c3, c4, c5, c6, c7, c8, c9]"
  using assms by (auto simp: numeral_eq_Suc length_Suc_conv)

lemma isValidDateString_iff: "isValidDateString s = valid_calendar_date s"
proof (cases "dateRegex_test s")
  case False
  then show ?thesis by (simp add: isValidDateString_def valid_calendar_date_def)
next
  case True
  then have "length s = 10" by (simp add: dateRegex_test_def)
  then obtain c0 c1 c2 c3 c4 c5 c6 c7 c8 c9 where s: "s = [c0, c1, c2, c3, c4, c5, c6, c7, c8, c9]"
    by (rule ten_chars)
  from True s have dg: "is_digit c0" "is_digit c1" "is_digit c2" "is_digit c3" "is_digit c5" "is_digit c6"
    "is_digit c8" "is_digit c9" and dash: "c4 = CHR ''-''" "c7 = CHR ''-''"
    by (simp_all add: dateRegex_test_def)
  define y where "y = number_of [c0, c1, c2, c3]"
  define m where "m = number_of [c5, c6]"
  define d where "d = number_of [c8, c9]"
  have py: "pad4 y = [c0, c1, c2, c3]"
    using dg pad4_digits [of "digit_value c0" "digit_value c1" "digit_value c2" "digit_value c3"]
    by (simp add: y_def number_of_def digit_roundtrip)
  have pm: "pad2 m = [c5, c6]"
    using dg pad2_digits [of "digit_value c5" "digit_value c6"]
    by (simp add: m_def number_of_def digit_roundtrip)
  have pd: "pad2 d = [c8, c9]"
    using dg pad2_digits [of "digit_value c8" "digit_value c9"]
    by (simp add: d_def number_of_def digit_roundtrip)
  have m100: "m < 100" using digit_roundtrip(1) [OF dg(5)] digit_roundtrip(1) [OF dg(6)]
    by (simp add: m_def number_of_def)
  have iso: "iso_date y m d = s" by (simp add: iso_date_def py pm pd s dash)
  have fields: "take 4 s = [c0, c1, c2, c3]" "take 2 (drop 5 s) = [c5, c6]" "drop 8 s = [c8, c9]"
    by (simp_all add: s)
  have dim: "days_in_month y m \<le> 31" by (simp add: days_in_month_def)
  show ?thesis
  proof (cases "m < 1 \<or> 12 < m \<or> d < 1 \<or> 31 < d")
    case True
    with \<open>dateRegex_test s\<close> dim show ?thesis
      by (auto simp: isValidDateString_def valid_calendar_date_def new_Date_def fields
          y_def [symmetric] m_def [symmetric] d_def [symmetric])
  next
    case False
    show ?thesis
    proof (cases "d \<le> days_in_month y m")
      case True
      with False \<open>dateRegex_test s\<close> iso show ?thesis
        by (auto simp: isValidDateString_def valid_calendar_date_def new_Date_def fields
            y_def [symmetric] m_def [symmetric] d_def [symmetric])
    next
      case over: False
      have "iso_date y (m + 1) (d - days_in_month y m) \<noteq> s"
      proof
        assume "iso_date y (m + 1) (d - days_in_month y m) = s"
        with iso have "iso_date y (m + 1) (d - days_in_month y m) = iso_date y m d" by simp
        then have "pad2 (m + 1) = pad2 m" by (simp add: iso_date_def pad4_def pad2_def)
        from pad2_inj [OF this] m100 False show False by simp
      qed
      with False over \<open>dateRegex_test s\<close> show ?thesis
        by (auto simp: isValidDateString_def valid_calendar_date_def new_Date_def fields
            y_def [symmetric] m_def [symmetric] d_def [symmetric])
    qed
  qed
qed



lemma birthdateToAge_valid:
  "birthdateToAge clk v = (if valid_birthdate v then Some (age_of clk v) else None)"
proof (cases v)
  case (VString s)
  show ?thesis
  proof (cases "valid_calendar_date s")
    case True
    then have "new_Date s =
        Date (number_of (take 4 s)) (number_of (take 2 (drop 5 s))) (number_of (drop 8 s))"
      by (auto simp: valid_calendar_date_def new_Date_def days_in_month_def split: if_splits)
    with True VString show ?thesis by (simp add: isValidDateString_iff)
  next
    case False
    with VString show ?thesis by (simp add: isValidDateString_iff)
  qed
qed simp_all

lemma filter_defined_map:
  "filter_defined (map f xs) = map (\<lambda>x. the (f x)) (filter (\<lambda>x. f x \<noteq> None) xs)"
  by (induction xs) (simp_all add: filter_defined_def)

lemma map_inputs_fst:
  assumes "\<And>x s. fst (f x s) = g x"
  shows "fst (map_inputs f xs st) = map g xs"
proof (induction xs arbitrary: st)
  case Nil
  show ?case by simp
next
  case (Cons x xs)
  obtain y st1 where a: "f x st = (y, st1)" by (cases "f x st")
  obtain ys st2 where b: "map_inputs f xs st1 = (ys, st2)" by (cases "map_inputs f xs st1")
  from assms [of x st] a have "y = g x" by simp
  moreover from Cons.IH [of st1] b have "ys = map g xs" by simp
  ultimately show ?case using a b by simp
qed

lemma toAge_output:
  "fst (userInvocationTable dbg clk ToAge inputs st) =
     map (\<lambda>v. VNumber (age_of clk v)) (filter valid_birthdate inputs)"
proof -
  obtain vs st1 where m: "map_inputs (element_fn dbg clk ToAge) inputs st = (vs, st1)"
    by (cases "map_inputs (element_fn dbg clk ToAge) inputs st")
  have "fst (map_inputs (element_fn dbg clk ToAge) inputs st) =
      map (\<lambda>x. map_option VNumber (birthdateToAge clk x)) inputs"
    by (rule map_inputs_fst) (simp add: toAge_element_def Let_def)
  with m have "vs = map (\<lambda>x. map_option VNumber (birthdateToAge clk x)) inputs" by simp
  with m have "fst (userInvocationTable dbg clk ToAge inputs st) =
      filter_defined (map (\<lambda>x. map_option VNumber (birthdateToAge clk x)) inputs)"
    by (simp add: userInvocationTable_def)
  also have "\<dots> = map (\<lambda>v. VNumber (age_of clk v)) (filter valid_birthdate inputs)"
    by (simp add: filter_defined_map birthdateToAge_valid cong: map_cong)
  finally show ?thesis .
qed

lemma toAge_frame:
  "asyncCallsRequired (snd (userInvocationTable dbg clk ToAge inputs st)) = asyncCallsRequired st \<and>
   requiresAsyncProcessing (snd (userInvocationTable dbg clk ToAge inputs st)) = requiresAsyncProcessing st \<and>
   requested (snd (userInvocationTable dbg clk ToAge inputs st)) = requested st"
proof -
  let ?P = "\<lambda>s. asyncCallsRequired s = asyncCallsRequired st \<and>
     requiresAsyncProcessing s = requiresAsyncProcessing st \<and> requested s = requested st"
  have "?P (snd (map_inputs (element_fn dbg clk ToAge) inputs st))"
    by (rule map_inputs_keeps [where P = ?P]) (simp_all add: toAge_element_def Let_def)
  then show ?thesis by (auto simp: userInvocationTable_def split: prod.splits)
qed

lemma only_toAge_frame:
  assumes "only_toAge e"
  shows "asyncCallsRequired (snd (fhirpath_evaluate (userInvocationTable dbg clk) e st)) = asyncCallsRequired st \<and>
   requiresAsyncProcessing (snd (fhirpath_evaluate (userInvocationTable dbg clk) e st)) = requiresAsyncProcessing st \<and>
   requested (snd (fhirpath_evaluate (userInvocationTable dbg clk) e st)) = requested st"
  using assms
proof (induction e arbitrary: st rule: only_toAge.induct)
  case (3 k inputs)
  obtain out st1 where t: "userInvocationTable dbg clk ToAge inputs st = (out, st1)"
    by (cases "userInvocationTable dbg clk ToAge inputs st")
  with toAge_frame [of dbg clk inputs st] "3.IH" [of out st1] show ?case by simp
qed simp_all

lemma only_toAge_one_pass:
  assumes "only_toAge e"
  shows "(\<exists>fin. run h e = Inr fin \<and> iterations fin = 1 \<and> requested (final fin) = []) \<or>
         (\<exists>failure st. run h e = Inl (failure, st) \<and> map severity failure = [''fatal''] \<and>
            requested st = [])"
proof -
  let ?st0 = "logMessage (debugAsyncFhirpath h) (Count ''performing iteration: '' (Suc 0)) initial_state"
  obtain r st1 where ev:
    "fhirpath_evaluate (userInvocationTable (debugAsyncFhirpath h) (host_clock h)) e ?st0 = (r, st1)"
    by (cases "fhirpath_evaluate (userInvocationTable (debugAsyncFhirpath h) (host_clock h)) e ?st0")
  with only_toAge_frame [OF assms, of "debugAsyncFhirpath h" "host_clock h" ?st0]
  have fr: "\<not> requiresAsyncProcessing st1" "requested st1 = []"
    by (simp_all add: initial_state_def)
  have rp: "resolve_phase h initial_state = Inr initial_state"
    by (simp add: resolve_phase_def initial_state_def)
  show ?thesis
  proof (cases r)
    case (Inr vs)
    with ev rp have "do_body h e (Suc 0) [] initial_state = Inr (vs, st1)"
      by (simp add: do_body_def)
    from loop_step(2) [OF this] fr show ?thesis by (simp add: run_def)
  next
    case (Inl m)
    show ?thesis
    proof (cases "truthy m")
      case True
      with Inl ev rp have "do_body h e (Suc 0) [] initial_state =
          Inl (CreateOperationOutcome ''fatal'' ''exception'' (js_string m) None, st1)"
        by (simp add: do_body_def)
      from loop_failure [OF this] fr show ?thesis
        by (simp add: run_def CreateOperationOutcome_def)
    next
      case False
      with Inl ev rp have "do_body h e (Suc 0) [] initial_state = Inr ([], st1)"
        by (simp add: do_body_def)
      from loop_step(2) [OF this] fr show ?thesis by (simp add: run_def)
    qed
  qed
qed


text \<open>
  \<^verbatim>\<open>isValidDateString\<close> accepts exactly the valid calendar dates.
\<close>

theorem isValidDateString_accepts_calendar_dates:
  "isValidDateString s = valid_calendar_date s"
  by (rule isValidDateString_iff)

text \<open>
  C10. \<^verbatim>\<open>toAge\<close> answers in the pass that calls it: it leaves the map, the flag that
  asks for another pass and the list of adapter calls as they were, and its output is
  the age of every input that is a valid calendar date string, in order; every other
  input is left out. An expression that calls no other registered function is
  finished after one pass (or fails in it with the engine's own error).
\<close>

theorem toAge_is_synchronous:
  "asyncCallsRequired (snd (userInvocationTable dbg clk ToAge inputs st)) = asyncCallsRequired st \<and>
   requiresAsyncProcessing (snd (userInvocationTable dbg clk ToAge inputs st)) =
     requiresAsyncProcessing st \<and>
   requested (snd (userInvocationTable dbg clk ToAge inputs st)) = requested st \<and>
   fst (userInvocationTable dbg clk ToAge inputs st) =
     map (\<lambda>v. VNumber (age_of clk v)) (filter valid_birthdate inputs) \<and>
   (only_toAge e \<longrightarrow>
      (\<exists>fin. run h e = Inr fin \<and> iterations fin = 1 \<and> requested (final fin) = []) \<or>
      (\<exists>failure st. run h e = Inl (failure, st) \<and> map severity failure = [''fatal''] \<and>
         requested st = []))"
  using toAge_frame [of dbg clk inputs st] toAge_output [of dbg clk inputs st]
    only_toAge_one_pass [of e h]
  by blast

theorem toAge_is_synchronous_witness:
  "only_toAge birthdays \<and>
   filter valid_birthdate
     [VString ''1990-05-17'', VString ''2021-02-30'', VString ''17/05/1990'', VNumber 1990] =
     [VString ''1990-05-17''] \<and>
   fst (userInvocationTable True plain_clock ToAge
     [VString ''1990-05-17'', VString ''2021-02-30'', VString ''17/05/1990'', VNumber 1990]
     initial_state) = [VNumber 34] \<and>
   evaluateFhirpathAsync vs1_host birthdays = Inr [VNumber 34] \<and>
   passes (run vs1_host birthdays) = Some 1"
proof -
  have o: "only_toAge birthdays"
    unfolding birthdays_def by (intro only_toAge.intros)
  have f: "filter valid_birthdate
     [VString ''1990-05-17'', VString ''2021-02-30'', VString ''17/05/1990'', VNumber 1990] =
     [VString ''1990-05-17'']"
    by code_simp
  have a: "age_of plain_clock (VString ''1990-05-17'') = 34"
    by code_simp
  have r: "summary (run vs1_host birthdays) = (Some 1, False, [], Inr [VNumber 34])"
    by code_simp
  from toAge_is_synchronous
    [where dbg = True and clk = plain_clock and st = initial_state and e = birthdays and h = vs1_host
       and inputs = "[VString ''1990-05-17'', VString ''2021-02-30'', VString ''17/05/1990'', VNumber 1990]"]
    o f a r outcome_of_run [of vs1_host birthdays]
  show ?thesis by (simp add: summary_def)
qed

end
